theory Spec2Isabelle
  imports Complex_Main "HOL-Library.Multiset"
begin

section \<open>JavaScript numbers\<close>

text \<open>
  The sources are TypeScript; every \<^verbatim>\<open>number\<close> is an IEEE double. Integer-valued
  quantities (scale degrees, slot counts, MIDI pitches, inversions, octaves) are modelled
  as \<^typ>\<open>int\<close> or \<^typ>\<open>nat\<close>, fractional ones as \<^typ>\<open>real\<close>: rounding and overflow
  are not modelled. Where the code can divide by zero or take a table entry that does not
  exist, the value is a \<open>jsnum\<close>, which adds the three non-finite doubles.
  \<^verbatim>\<open>Math.random()\<close> is an explicit stream of draws \<open>rnd :: nat \<Rightarrow> real\<close>, each
  in \<open>[0, 1)\<close>, read in the order the code calls it.
\<close>

datatype jsnum = Num real | NaN | PosInf | NegInf

fun js_neg :: "jsnum \<Rightarrow> jsnum" where
  "js_neg (Num a) = Num (- a)"
| "js_neg NaN = NaN"
| "js_neg PosInf = NegInf"
| "js_neg NegInf = PosInf"

fun js_add :: "jsnum \<Rightarrow> jsnum \<Rightarrow> jsnum" where
  "js_add (Num a) (Num b) = Num (a + b)"
| "js_add NaN _ = NaN"
| "js_add _ NaN = NaN"
| "js_add PosInf NegInf = NaN"
| "js_add NegInf PosInf = NaN"
| "js_add PosInf _ = PosInf"
| "js_add _ PosInf = PosInf"
| "js_add NegInf _ = NegInf"
| "js_add _ NegInf = NegInf"

definition js_sub :: "jsnum \<Rightarrow> jsnum \<Rightarrow> jsnum" where
  "js_sub x y = js_add x (js_neg y)"

text \<open>The sign of a product with an infinite factor; a zero factor gives \<open>NaN\<close>.\<close>

definition js_inf :: "bool \<Rightarrow> jsnum" where
  "js_inf positive = (if positive then PosInf else NegInf)"

fun js_mul :: "jsnum \<Rightarrow> jsnum \<Rightarrow> jsnum" where
  "js_mul (Num a) (Num b) = Num (a * b)"
| "js_mul NaN _ = NaN"
| "js_mul _ NaN = NaN"
| "js_mul (Num a) PosInf = (if a = 0 then NaN else js_inf (0 < a))"
| "js_mul (Num a) NegInf = (if a = 0 then NaN else js_inf (a < 0))"
| "js_mul PosInf (Num b) = (if b = 0 then NaN else js_inf (0 < b))"
| "js_mul NegInf (Num b) = (if b = 0 then NaN else js_inf (b < 0))"
| "js_mul PosInf PosInf = PosInf"
| "js_mul NegInf NegInf = PosInf"
| "js_mul PosInf NegInf = NegInf"
| "js_mul NegInf PosInf = NegInf"

fun js_div :: "jsnum \<Rightarrow> jsnum \<Rightarrow> jsnum" where
  "js_div (Num a) (Num b) =
     (if b = 0 then (if a = 0 then NaN else js_inf (0 < a)) else Num (a / b))"
| "js_div NaN _ = NaN"
| "js_div _ NaN = NaN"
| "js_div (Num a) _ = Num 0"
| "js_div PosInf (Num b) = js_inf (0 \<le> b)"
| "js_div NegInf (Num b) = js_inf (b < 0)"
| "js_div _ _ = NaN"

fun js_abs :: "jsnum \<Rightarrow> jsnum" where
  "js_abs (Num a) = Num \<bar>a\<bar>"
| "js_abs NaN = NaN"
| "js_abs _ = PosInf"

fun js_sin :: "jsnum \<Rightarrow> jsnum" where
  "js_sin (Num a) = Num (sin a)"
| "js_sin _ = NaN"

text \<open>\<^verbatim>\<open>x <= y\<close>: every comparison with \<open>NaN\<close> is false.\<close>

fun js_le :: "jsnum \<Rightarrow> jsnum \<Rightarrow> bool" where
  "js_le (Num a) (Num b) = (a \<le> b)"
| "js_le NaN _ = False"
| "js_le _ NaN = False"
| "js_le NegInf _ = True"
| "js_le _ PosInf = True"
| "js_le _ _ = False"

text \<open>\<^verbatim>\<open>Math.min\<close> and \<^verbatim>\<open>Math.max\<close> return \<open>NaN\<close> as soon as an argument is \<open>NaN\<close>.\<close>

fun js_min :: "jsnum \<Rightarrow> jsnum \<Rightarrow> jsnum" where
  "js_min NaN _ = NaN"
| "js_min _ NaN = NaN"
| "js_min x y = (if js_le x y then x else y)"

fun js_max :: "jsnum \<Rightarrow> jsnum \<Rightarrow> jsnum" where
  "js_max NaN _ = NaN"
| "js_max _ NaN = NaN"
| "js_max x y = (if js_le x y then y else x)"

text \<open>Finite non-negative and finite positive numbers, for stating invariants of weights.\<close>

fun js_nonneg :: "jsnum \<Rightarrow> bool" where
  "js_nonneg (Num a) = (0 \<le> a)"
| "js_nonneg _ = False"

fun js_pos :: "jsnum \<Rightarrow> bool" where
  "js_pos (Num a) = (0 < a)"
| "js_pos _ = False"

text \<open>
  The remainder operator \<^verbatim>\<open>%\<close> on integers truncates towards zero: the result has the
  sign of the dividend.
\<close>

definition js_rem :: "int \<Rightarrow> int \<Rightarrow> int" where
  "js_rem a b = sgn a * (\<bar>a\<bar> mod \<bar>b\<bar>)"

text \<open>
  An object whose keys are array indices: \<^verbatim>\<open>Object.keys\<close>, \<^verbatim>\<open>Object.values\<close> and
  \<^verbatim>\<open>Object.entries\<close> enumerate it in ascending key order, whatever the order of
  insertion. The object is the list of its entries in that order; \<open>obj_set\<close> is the
  assignment \<^verbatim>\<open>obj[k] = v\<close>.
\<close>

fun obj_set :: "int \<Rightarrow> 'v \<Rightarrow> (int \<times> 'v) list \<Rightarrow> (int \<times> 'v) list" where
  "obj_set k v [] = [(k, v)]"
| "obj_set k v ((k', v') # rest) =
     (if k < k' then (k, v) # (k', v') # rest
      else if k = k' then (k, v) # rest
      else (k', v') # obj_set k v rest)"

definition obj_literal :: "(int \<times> 'v) list \<Rightarrow> (int \<times> 'v) list" where
  "obj_literal entries = foldl (\<lambda>obj (k, v). obj_set k v obj) [] entries"

section \<open>Chord model (\<^verbatim>\<open>music/chords\<close>)\<close>

datatype Key = C | Cs | D | Ds | E | F | Fs | G | Gs | A | As | B

datatype ChordType =
  Major | Minor | Dom7 | Maj7 | Min7 | Sus2 | Sus4 | Aug | Dim | Maj9 | Min9 | Maj6

text \<open>The only exception of the module: \<^verbatim>\<open>new Error(message)\<close>.\<close>

datatype js_error = Error string

definition NOTES :: "Key list" where
  "NOTES = [C, Cs, D, Ds, E, F, Fs, G, Gs, A, As, B]"

definition MAJOR_SCALE :: "int list" where
  "MAJOR_SCALE = [0, 2, 4, 5, 7, 9, 11]"

fun CHORD_INTERVALS :: "ChordType \<Rightarrow> int list" where
  "CHORD_INTERVALS Major = [0, 4, 7]"
| "CHORD_INTERVALS Minor = [0, 3, 7]"
| "CHORD_INTERVALS Dom7 = [0, 4, 7, 10]"
| "CHORD_INTERVALS Maj7 = [0, 4, 7, 11]"
| "CHORD_INTERVALS Min7 = [0, 3, 7, 10]"
| "CHORD_INTERVALS Sus2 = [0, 2, 7]"
| "CHORD_INTERVALS Sus4 = [0, 5, 7]"
| "CHORD_INTERVALS Aug = [0, 4, 8]"
| "CHORD_INTERVALS Dim = [0, 3, 6]"
| "CHORD_INTERVALS Maj9 = [0, 4, 7, 11, 14]"
| "CHORD_INTERVALS Min9 = [0, 3, 7, 10, 14]"
| "CHORD_INTERVALS Maj6 = [0, 4, 7, 9]"

definition NASHVILLE_CHORDS :: "(int \<times> ChordType) list" where
  "NASHVILLE_CHORDS =
     [(1, Major), (2, Minor), (3, Minor), (4, Major), (5, Major), (6, Minor), (7, Dim)]"

text \<open>\<^verbatim>\<open>NOTES.indexOf(note)\<close>; every key is in \<open>NOTES\<close>, so \<open>-1\<close> is never returned.\<close>

fun indexOf :: "'a list \<Rightarrow> 'a \<Rightarrow> int" where
  "indexOf [] x = - 1"
| "indexOf (y # ys) x = (if y = x then 0 else (let r = indexOf ys x in if r < 0 then - 1 else r + 1))"

definition getNoteIndex :: "Key \<Rightarrow> int" where
  "getNoteIndex note = indexOf NOTES note"

text \<open>
  The inversion loop: \<^verbatim>\<open>inverted.shift()\<close> then \<^verbatim>\<open>inverted.push(note + 12)\<close>, \<open>n\<close>
  times. The guard before the loop keeps \<open>n\<close> below the length, so the array is never
  empty when \<^verbatim>\<open>shift\<close> is called; the empty case leaves the array as it is.
\<close>

fun invert :: "nat \<Rightarrow> int list \<Rightarrow> int list" where
  "invert 0 inverted = inverted"
| "invert (Suc n) [] = []"
| "invert (Suc n) (note # rest) = invert n (rest @ [note + 12])"

text \<open>
  The array \<^verbatim>\<open>midiNotes\<close> of \<^verbatim>\<open>generateChord\<close>, computed once the scale degree
  has passed the range check. The optional chord type is an \<open>option\<close>. The remainder
  and the floor are taken of a sum of non-negative integers.
\<close>

definition midiNotes :: "Key \<Rightarrow> int \<Rightarrow> ChordType option \<Rightarrow> int \<Rightarrow> int list" where
  "midiNotes key scaleDegree chordType octave =
     (let keyIndex = getNoteIndex key;
          scaleRootSemitones = MAJOR_SCALE ! nat (scaleDegree - 1);
          chordRootSemitones = js_rem (keyIndex + scaleRootSemitones) 12;
          baseChordType = (case chordType of
                             Some t \<Rightarrow> Some t
                           | None \<Rightarrow> map_of NASHVILLE_CHORDS scaleDegree);
          intervals = (case baseChordType of
                         Some t \<Rightarrow> CHORD_INTERVALS t
                       | None \<Rightarrow> CHORD_INTERVALS Major)
      in map (\<lambda>interval.
                (let semitones = chordRootSemitones + interval;
                     noteIndex = js_rem semitones 12;
                     octaveOffset = semitones div 12
                 in (octave + 1) * 12 + noteIndex + octaveOffset * 12))
             intervals)"

text \<open>
  \<^verbatim>\<open>generateChord(key, scaleDegree, chordType?, inversion = 0, octave = 3)\<close>; the
  defaults of the last two parameters are left to the caller.
\<close>

definition generateChord ::
  "Key \<Rightarrow> int \<Rightarrow> ChordType option \<Rightarrow> int \<Rightarrow> int \<Rightarrow> js_error + int list" where
  "generateChord key scaleDegree chordType inversion octave =
     (if scaleDegree < 1 \<or> scaleDegree > 7
      then Inl (Error ''Scale degree must be between 1 and 7'')
      else
        (let notes = midiNotes key scaleDegree chordType octave
         in if inversion > 0 \<and> inversion < int (length notes)
            then Inr (invert (nat inversion) notes)
            else Inr notes))"

section \<open>Procedural generator (\<^verbatim>\<open>utils/proceduralMusicGenerator\<close>)\<close>

subsection \<open>Tables\<close>

definition CHORD_TENSION_MAP :: "(int \<times> real) list" where
  "CHORD_TENSION_MAP =
     [(1, 0.1), (2, 0.4), (3, 0.5), (4, 0.3), (5, 0.8), (6, 0.4), (7, 0.9)]"

text \<open>A missing entry reads as \<^verbatim>\<open>undefined\<close>, which arithmetic turns into \<open>NaN\<close>.\<close>

definition chordTensionOf :: "int \<Rightarrow> jsnum" where
  "chordTensionOf degree =
     (case map_of CHORD_TENSION_MAP degree of Some t \<Rightarrow> Num t | None \<Rightarrow> NaN)"

text \<open>The key \<^verbatim>\<open>'a-b'\<close> of the second-order table is the pair \<open>(a, b)\<close>.\<close>

definition MARKOV_2ND_ORDER :: "((int \<times> int) \<times> (int \<times> real) list) list" where
  "MARKOV_2ND_ORDER =
     [((1, 5), [(6, 0.50), (4, 0.30), (1, 0.15), (2, 0.05)]),
      ((5, 6), [(4, 0.60), (1, 0.25), (5, 0.10), (2, 0.05)]),
      ((6, 4), [(1, 0.45), (5, 0.40), (2, 0.10), (6, 0.05)]),
      ((4, 1), [(5, 0.50), (6, 0.25), (4, 0.15), (2, 0.10)]),
      ((2, 5), [(1, 0.70), (6, 0.15), (4, 0.10), (3, 0.05)]),
      ((6, 2), [(5, 0.60), (1, 0.25), (4, 0.10), (6, 0.05)]),
      ((1, 4), [(5, 0.50), (1, 0.25), (2, 0.15), (6, 0.10)]),
      ((4, 5), [(1, 0.70), (6, 0.20), (4, 0.05), (3, 0.05)]),
      ((1, 3), [(6, 0.40), (4, 0.30), (2, 0.20), (5, 0.10)]),
      ((3, 6), [(2, 0.40), (4, 0.35), (5, 0.15), (1, 0.10)])]"

definition MARKOV_1ST_ORDER :: "(int \<times> (int \<times> real) list) list" where
  "MARKOV_1ST_ORDER =
     [(1, [(4, 0.30), (5, 0.25), (6, 0.20), (2, 0.15), (1, 0.05), (3, 0.03), (7, 0.02)]),
      (2, [(5, 0.50), (1, 0.20), (4, 0.15), (6, 0.10), (3, 0.03), (2, 0.01), (7, 0.01)]),
      (3, [(6, 0.40), (4, 0.25), (2, 0.15), (5, 0.10), (1, 0.07), (3, 0.02), (7, 0.01)]),
      (4, [(5, 0.35), (1, 0.30), (2, 0.15), (6, 0.10), (4, 0.05), (3, 0.03), (7, 0.02)]),
      (5, [(1, 0.50), (6, 0.25), (4, 0.12), (2, 0.08), (5, 0.03), (3, 0.01), (7, 0.01)]),
      (6, [(4, 0.30), (2, 0.25), (5, 0.20), (1, 0.15), (3, 0.05), (6, 0.03), (7, 0.02)]),
      (7, [(1, 0.70), (3, 0.15), (6, 0.10), (5, 0.03), (4, 0.01), (2, 0.01), (7, 0.00)])]"

subsection \<open>Tension curve\<close>

text \<open>
  \<open>tensionAt length type rnd i\<close> is the value pushed in iteration \<open>i\<close> of the loop of
  the matching \<^verbatim>\<open>case\<close>; the \<^verbatim>\<open>default\<close> case fills the array with 0.5. The curve type
  is a \<^verbatim>\<open>string\<close> in the source, so that the default case is reachable.
\<close>

definition tensionAt :: "nat \<Rightarrow> string \<Rightarrow> (nat \<Rightarrow> real) \<Rightarrow> nat \<Rightarrow> jsnum" where
  "tensionAt length' type rnd i =
     (if type = ''arc'' then
        (let normalized = js_div (Num (real i)) (Num (real_of_int (int length' - 1)))
         in js_sin (js_mul normalized (Num pi)))
      else if type = ''wave'' then
        (let normalized = js_div (Num (real i)) (Num (real_of_int (int length' - 1)))
         in js_div (js_add (js_sin (js_mul (js_mul normalized (Num pi)) (Num 2))) (Num 1)) (Num 2))
      else if type = ''buildup'' then
        js_div (Num (real i)) (Num (real_of_int (int length' - 1)))
      else if type = ''release'' then
        js_sub (Num 1) (js_div (Num (real i)) (Num (real_of_int (int length' - 1))))
      else if type = ''random'' then
        (let base = js_sin (js_mul (js_mul (js_div (Num (real i)) (Num (real length'))) (Num pi)) (Num 3));
             noise = Num ((rnd i - 0.5) * 0.3)
         in js_max (Num 0) (js_min (Num 1) (js_add (js_div (js_add base (Num 1)) (Num 2)) noise)))
      else Num 0.5)"

definition generateTensionCurve :: "nat \<Rightarrow> string \<Rightarrow> (nat \<Rightarrow> real) \<Rightarrow> jsnum list" where
  "generateTensionCurve length' type rnd = map (tensionAt length' type rnd) [0..<length']"

subsection \<open>Euclidean rhythm\<close>

text \<open>
  \<^verbatim>\<open>bucket[i] = Math.floor((i * pulses) / steps)\<close>. The step and pulse counts are
  non-negative integers (\<^verbatim>\<open>Array(steps)\<close> accepts nothing else); the bucket values are
  integers because the code compares them with the sentinel \<^verbatim>\<open>-1\<close>.
\<close>

definition bucket :: "nat \<Rightarrow> nat \<Rightarrow> nat \<Rightarrow> int" where
  "bucket steps pulses i = int ((i * pulses) div steps)"

definition euclideanRhythm :: "nat \<Rightarrow> nat \<Rightarrow> bool list" where
  "euclideanRhythm steps pulses =
     (if pulses \<ge> steps then replicate steps True
      else if pulses = 0 then replicate steps False
      else map (\<lambda>i. bucket steps pulses i \<noteq> (if i > 0 then bucket steps pulses (i - 1) else - 1))
             [0..<steps])"

subsection \<open>Chord selection\<close>

text \<open>
  The selection decides by comparing a running remainder with zero, so the rounding of
  doubles is kept in its model: \<open>fl\<close> maps the exact result of an operation, and the
  exact value of a decimal literal, to the double that stands for it. With \<open>fl\<close> the
  rounding to nearest of IEEE arithmetic each function below computes what the code
  computes, as long as no operation overflows (the weights stay below 10 for a
  creativity in its documented range \<open>[0, 1]\<close>); with \<open>fl\<close> the identity it is the
  exact real computation. Non-finite operands are not rounded.
\<close>

fun js_round :: "(real \<Rightarrow> real) \<Rightarrow> jsnum \<Rightarrow> jsnum" where
  "js_round fl (Num a) = Num (fl a)"
| "js_round fl x = x"

definition fl_add :: "(real \<Rightarrow> real) \<Rightarrow> jsnum \<Rightarrow> jsnum \<Rightarrow> jsnum" where
  "fl_add fl x y = js_round fl (js_add x y)"

definition fl_sub :: "(real \<Rightarrow> real) \<Rightarrow> jsnum \<Rightarrow> jsnum \<Rightarrow> jsnum" where
  "fl_sub fl x y = js_round fl (js_sub x y)"

definition fl_mul :: "(real \<Rightarrow> real) \<Rightarrow> jsnum \<Rightarrow> jsnum \<Rightarrow> jsnum" where
  "fl_mul fl x y = js_round fl (js_mul x y)"

text \<open>
  What the proofs use of rounding to nearest: it is monotone, it leaves a double
  unchanged, and 0, 1, -1 and 1/128 are doubles.
\<close>

definition rounding :: "(real \<Rightarrow> real) \<Rightarrow> bool" where
  "rounding fl \<longleftrightarrow>
     (\<forall>x y. x \<le> y \<longrightarrow> fl x \<le> fl y) \<and> (\<forall>x. fl (fl x) = fl x)
     \<and> fl 0 = 0 \<and> fl 1 = 1 \<and> fl (- 1) = - 1 \<and> fl (1 / 128) = 1 / 128"

text \<open>A number that rounding leaves unchanged, for stating invariants of weights.\<close>

fun js_fixed :: "(real \<Rightarrow> real) \<Rightarrow> jsnum \<Rightarrow> bool" where
  "js_fixed fl (Num a) = (fl a = a)"
| "js_fixed fl x = True"

text \<open>
  The weighted random selection that ends \<^verbatim>\<open>selectChordForTension\<close>: \<open>weights\<close> is the
  weight object (its entries in enumeration order), \<open>u\<close> the draw of \<^verbatim>\<open>Math.random()\<close>.
\<close>

fun selectLoop :: "(real \<Rightarrow> real) \<Rightarrow> (int \<times> jsnum) list \<Rightarrow> jsnum \<Rightarrow> int" where
  "selectLoop fl [] random = 1"
| "selectLoop fl ((degree, weight) # rest) random =
     (let random' = fl_sub fl random weight
      in if js_le random' (Num 0) then degree else selectLoop fl rest random')"

definition totalWeight :: "(real \<Rightarrow> real) \<Rightarrow> (int \<times> jsnum) list \<Rightarrow> jsnum" where
  "totalWeight fl weights = foldl (fl_add fl) (Num 0) (map snd weights)"

definition weightedSelect :: "(real \<Rightarrow> real) \<Rightarrow> (int \<times> jsnum) list \<Rightarrow> real \<Rightarrow> int" where
  "weightedSelect fl weights u = selectLoop fl weights (fl_mul fl (Num u) (totalWeight fl weights))"

text \<open>The base weights: second-order table, else first-order table, else nothing.\<close>

definition baseWeights ::
  "(real \<Rightarrow> real) \<Rightarrow> int option \<Rightarrow> int option \<Rightarrow> (int \<times> jsnum) list" where
  "baseWeights fl previousChord secondPreviousChord =
     (case previousChord of
        Some prev \<Rightarrow>
          (let pattern = (case secondPreviousChord of Some second \<Rightarrow> Some (second, prev) | None \<Rightarrow> None);
               second_order = (case pattern of Some p \<Rightarrow> map_of MARKOV_2ND_ORDER p | None \<Rightarrow> None);
               transitions = (case second_order of
                                Some t \<Rightarrow> t
                              | None \<Rightarrow> (case map_of MARKOV_1ST_ORDER prev of Some t \<Rightarrow> t | None \<Rightarrow> []))
           in foldl (\<lambda>weights (degree, prob). obj_set degree (Num (fl prob)) weights) []
                (obj_literal transitions))
      | None \<Rightarrow> obj_set 4 (Num (fl 0.1)) (obj_set 5 (Num (fl 0.3)) (obj_set 1 (Num (fl 0.6)) [])))"

definition tensionAdjust ::
  "(real \<Rightarrow> real) \<Rightarrow> jsnum \<Rightarrow> (int \<times> jsnum) list \<Rightarrow> (int \<times> jsnum) list" where
  "tensionAdjust fl targetTension weights =
     map (\<lambda>(degree, w).
            (let chordTension = js_round fl (chordTensionOf degree);
                 tensionDiff = js_abs (fl_sub fl targetTension chordTension);
                 tensionMatch = fl_sub fl (Num 1) tensionDiff
             in (degree, fl_mul fl w (fl_add fl (Num 1) (fl_mul fl tensionMatch (Num 2))))))
         weights"

text \<open>The creativity pass draws once for each key, in enumeration order.\<close>

definition creativityAdjust ::
  "(real \<Rightarrow> real) \<Rightarrow> real \<Rightarrow> (nat \<Rightarrow> real) \<Rightarrow> (int \<times> jsnum) list
     \<Rightarrow> (int \<times> jsnum) list" where
  "creativityAdjust fl creativity rnd weights =
     map (\<lambda>(j, (degree, w)).
            (let randomBoost = fl (1 + fl (fl (rnd j * creativity) * fl 0.5));
                 w' = fl_mul fl w (Num randomBoost)
             in (degree, if degree \<in> set [3, 7] then fl_mul fl w' (Num (fl (1 + creativity))) else w')))
         (zip [0..<length weights] weights)"

text \<open>The weight object as it stands when the selection starts.\<close>

definition selectionWeights ::
  "(real \<Rightarrow> real) \<Rightarrow> jsnum \<Rightarrow> int option \<Rightarrow> int option \<Rightarrow> real \<Rightarrow> (nat \<Rightarrow> real)
     \<Rightarrow> (int \<times> jsnum) list" where
  "selectionWeights fl targetTension previousChord secondPreviousChord creativity rnd =
     (let weights = tensionAdjust fl targetTension (baseWeights fl previousChord secondPreviousChord)
      in if creativity > 0 then creativityAdjust fl creativity rnd weights else weights)"

text \<open>
  The selection draws after the creativity pass, which has drawn once for each key when
  it ran.
\<close>

definition selectChordForTension ::
  "(real \<Rightarrow> real) \<Rightarrow> jsnum \<Rightarrow> int option \<Rightarrow> int option \<Rightarrow> real \<Rightarrow> (nat \<Rightarrow> real)
     \<Rightarrow> int" where
  "selectChordForTension fl targetTension previousChord secondPreviousChord creativity rnd =
     (let weights = selectionWeights fl targetTension previousChord secondPreviousChord creativity rnd;
          u = rnd (if creativity > 0 then length weights else 0)
      in weightedSelect fl weights u)"

subsection \<open>Cadence post-pass of the generator\<close>

record GenerativeSlot =
  position :: nat
  degree :: "int option"
  velocity :: real
  duration :: real
  tension :: jsnum
  swing :: real
  stagger :: real

text \<open>
  Step 5 of \<^verbatim>\<open>generateProceduralProgression\<close>. \<open>result\<close> is the array built by the
  main loop, whose slots are distinct objects; \<^verbatim>\<open>result.reverse().find(...)\<close> returns
  the last slot of \<open>result\<close> that is not a rest, the second \<^verbatim>\<open>reverse()\<close> restores the
  order, and the assignment to \<^verbatim>\<open>lastFilledSlot.degree\<close> writes through to the array.
  \<open>u\<close> is the draw compared with 0.6, made only when the guard before it holds.
\<close>

fun findIndex :: "('a \<Rightarrow> bool) \<Rightarrow> 'a list \<Rightarrow> nat option" where
  "findIndex P [] = None"
| "findIndex P (x # xs) =
     (if P x then Some 0 else (case findIndex P xs of None \<Rightarrow> None | Some j \<Rightarrow> Some (Suc j)))"

definition lastFilledIndex :: "GenerativeSlot list \<Rightarrow> nat option" where
  "lastFilledIndex result =
     (case findIndex (\<lambda>s. degree s \<noteq> None) (rev result) of
        None \<Rightarrow> None
      | Some j \<Rightarrow> Some (length result - 1 - j))"

definition cadencePostPass :: "GenerativeSlot list \<Rightarrow> real \<Rightarrow> GenerativeSlot list" where
  "cadencePostPass result u =
     (case lastFilledIndex result of
        None \<Rightarrow> result
      | Some k \<Rightarrow>
          (let lastFilledSlot = result ! k
           in if degree lastFilledSlot \<noteq> Some 1 \<and> degree lastFilledSlot \<noteq> Some 5
              then (if u < 0.6 then result[k := lastFilledSlot\<lparr>degree := Some 1\<rparr>] else result)
              else result))"

section \<open>Chord suggestion engine (\<^verbatim>\<open>utils/chordSuggestion\<close>)\<close>

datatype Category = strong | moderate | adventurous

record ChordHistory =
  degree :: int
  timestamp :: real

record ChordSuggestion =
  degree :: int
  probability :: real
  reason :: string
  category :: Category

text \<open>The key \<^verbatim>\<open>'d'\<close> of the first table is the degree \<open>d\<close> printed in decimal.\<close>

definition COMMON_PROGRESSIONS :: "(int \<times> (int \<times> real) list) list" where
  "COMMON_PROGRESSIONS =
     [(0, [(3, 0.35), (4, 0.25), (5, 0.20), (1, 0.10), (0, 0.05), (2, 0.03), (6, 0.02)]),
      (1, [(4, 0.40), (0, 0.25), (3, 0.15), (5, 0.10), (1, 0.05), (2, 0.03), (6, 0.02)]),
      (2, [(5, 0.35), (3, 0.25), (0, 0.20), (4, 0.10), (1, 0.05), (2, 0.03), (6, 0.02)]),
      (3, [(0, 0.30), (4, 0.25), (1, 0.20), (5, 0.15), (3, 0.05), (2, 0.03), (6, 0.02)]),
      (4, [(0, 0.50), (5, 0.20), (3, 0.15), (1, 0.08), (4, 0.04), (2, 0.02), (6, 0.01)]),
      (5, [(3, 0.30), (1, 0.25), (4, 0.20), (0, 0.15), (5, 0.05), (2, 0.03), (6, 0.02)]),
      (6, [(0, 0.60), (5, 0.20), (2, 0.10), (3, 0.05), (4, 0.03), (1, 0.01), (6, 0.01)])]"

definition SECOND_ORDER_PATTERNS :: "((int \<times> int) \<times> (int \<times> real) list) list" where
  "SECOND_ORDER_PATTERNS =
     [((0, 4), [(5, 0.50), (3, 0.25), (0, 0.15), (1, 0.05), (4, 0.03), (2, 0.01), (6, 0.01)]),
      ((4, 5), [(3, 0.55), (0, 0.20), (4, 0.15), (1, 0.05), (5, 0.03), (2, 0.01), (6, 0.01)]),
      ((5, 3), [(0, 0.40), (4, 0.35), (1, 0.10), (5, 0.08), (3, 0.04), (2, 0.02), (6, 0.01)]),
      ((3, 0), [(4, 0.45), (3, 0.20), (5, 0.15), (1, 0.10), (0, 0.05), (2, 0.03), (6, 0.02)]),
      ((0, 3), [(4, 0.40), (0, 0.25), (1, 0.15), (5, 0.10), (3, 0.05), (2, 0.03), (6, 0.02)]),
      ((3, 4), [(0, 0.60), (5, 0.20), (3, 0.10), (1, 0.05), (4, 0.03), (2, 0.01), (6, 0.01)]),
      ((1, 4), [(0, 0.55), (5, 0.20), (3, 0.12), (1, 0.06), (4, 0.04), (2, 0.02), (6, 0.01)]),
      ((5, 1), [(4, 0.50), (3, 0.25), (0, 0.12), (5, 0.08), (1, 0.03), (2, 0.01), (6, 0.01)]),
      ((2, 5), [(1, 0.40), (3, 0.35), (4, 0.12), (0, 0.08), (5, 0.03), (2, 0.01), (6, 0.01)]),
      ((0, 5), [(3, 0.45), (1, 0.25), (4, 0.15), (0, 0.08), (5, 0.04), (2, 0.02), (6, 0.01)])]"

text \<open>
  \<^verbatim>\<open>table[key]?.[degree] || fallback\<close>: a missing row, a missing entry and an entry
  equal to zero all give the fallback.
\<close>

definition lookupOr :: "('k \<times> (int \<times> real) list) list \<Rightarrow> 'k \<Rightarrow> int \<Rightarrow> real \<Rightarrow> real" where
  "lookupOr table key' d fallback =
     (case map_of table key' of
        None \<Rightarrow> fallback
      | Some row \<Rightarrow> (case map_of row d of
                      None \<Rightarrow> fallback
                    | Some p \<Rightarrow> if p = 0 then fallback else p))"

definition getCircleOfFifthsBonus :: "int \<Rightarrow> int \<Rightarrow> real" where
  "getCircleOfFifthsBonus from to =
     (if js_rem (to - from + 7) 7 = 4 then 0.15
      else if js_rem (to - from + 7) 7 = 3 then 0.12
      else if \<bar>to - from\<bar> = 1 then 0.08
      else if to = 0 then 0.10
      else 0)"

definition HARMONIC_FUNCTION_tonic :: "int list" where
  "HARMONIC_FUNCTION_tonic = [0, 2, 5]"

definition HARMONIC_FUNCTION_subdominant :: "int list" where
  "HARMONIC_FUNCTION_subdominant = [1, 3]"

definition HARMONIC_FUNCTION_dominant :: "int list" where
  "HARMONIC_FUNCTION_dominant = [4, 6]"

definition getFunctionalHarmonyBonus :: "int \<Rightarrow> int \<Rightarrow> real" where
  "getFunctionalHarmonyBonus from to =
     (if from \<in> set HARMONIC_FUNCTION_dominant \<and> to \<in> set HARMONIC_FUNCTION_tonic then 0.20
      else if from \<in> set HARMONIC_FUNCTION_subdominant \<and> to \<in> set HARMONIC_FUNCTION_dominant then 0.15
      else if from \<in> set HARMONIC_FUNCTION_tonic \<and> to \<in> set HARMONIC_FUNCTION_subdominant then 0.12
      else 0)"

text \<open>An entry of the \<^verbatim>\<open>scores\<close> object.\<close>

record ScoreEntry =
  score :: real
  reasons :: "string list"

text \<open>The body of the loop over \<^verbatim>\<open>degree\<close> in \<^verbatim>\<open>suggestNextChords\<close>, steps 1 to 4.\<close>

definition scoreDegree :: "ChordHistory \<Rightarrow> ChordHistory option \<Rightarrow> int \<Rightarrow> ScoreEntry" where
  "scoreDegree lastChord secondLastChord d =
     (let e0 = \<lparr>score = 0, reasons = []\<rparr>;
          markovProb = lookupOr COMMON_PROGRESSIONS (ChordHistory.degree lastChord) d 0.01;
          e1 = \<lparr>score = score e0 + markovProb * 0.40,
                reasons = reasons e0 @ (if markovProb > 0.2 then [''Common progression''] else [])\<rparr>;
          e2 = (case secondLastChord of
                  Some second \<Rightarrow>
                    (let pattern = (ChordHistory.degree second, ChordHistory.degree lastChord);
                         secondOrderProb = lookupOr SECOND_ORDER_PATTERNS pattern d 0.01
                     in \<lparr>score = score e1 + secondOrderProb * 0.30,
                         reasons = reasons e1 @ (if secondOrderProb > 0.3 then [''Popular pattern''] else [])\<rparr>)
                | None \<Rightarrow> e1);
          fifthsBonus = getCircleOfFifthsBonus (ChordHistory.degree lastChord) d;
          e3 = \<lparr>score = score e2 + fifthsBonus,
                reasons = reasons e2 @ (if fifthsBonus > 0.10 then [''Strong voice leading''] else [])\<rparr>;
          functionBonus = getFunctionalHarmonyBonus (ChordHistory.degree lastChord) d;
          e4 = \<lparr>score = score e3 + functionBonus * 0.7,
                reasons = reasons e3 @ (if functionBonus > 0.10 then [''Natural resolution''] else [])\<rparr>
      in e4)"

text \<open>
  The callback of \<^verbatim>\<open>addCreativityBonus\<close> for the entry of degree \<open>d\<close>, with \<open>u\<close> the
  draw of \<^verbatim>\<open>Math.random()\<close>.
\<close>

definition creativityBoost :: "real \<Rightarrow> int \<Rightarrow> ScoreEntry \<Rightarrow> ScoreEntry" where
  "creativityBoost u d e =
     (let randomBoost = u * 0.15 + 0.05;
          e1 = e\<lparr>score := score e + randomBoost\<rparr>
      in if d \<in> set [2, 6]
         then e1\<lparr>score := score e1 + 0.1, reasons := reasons e1 @ [''Creative choice'']\<rparr>
         else e1)"

text \<open>
  \<^verbatim>\<open>addCreativityBonus\<close> visits the keys of \<^verbatim>\<open>scores\<close> in ascending order and draws once
  for each: the draw for the entry at position \<open>j\<close> is \<open>rnd j\<close>.
\<close>

definition addCreativityBonus ::
  "(nat \<Rightarrow> real) \<Rightarrow> (int \<times> ScoreEntry) list \<Rightarrow> (int \<times> ScoreEntry) list" where
  "addCreativityBonus rnd scores =
     map (\<lambda>(j, (d, e)). (d, creativityBoost (rnd j) d e)) (zip [0..<length scores] scores)"

fun join :: "string \<Rightarrow> string list \<Rightarrow> string" where
  "join sep [] = []"
| "join sep [x] = x"
| "join sep (x # y # ys) = x @ sep @ join sep (y # ys)"

definition startOptions :: "ChordSuggestion list" where
  "startOptions =
     [\<lparr>degree = 0, probability = 0.35, reason = ''Tonic (I) - Classic start'', category = strong\<rparr>,
      \<lparr>degree = 4, probability = 0.25, reason = ''Dominant (V) - Bold start'', category = strong\<rparr>,
      \<lparr>degree = 3, probability = 0.20, reason = ''Subdominant (IV) - Warm start'', category = moderate\<rparr>,
      \<lparr>degree = 5, probability = 0.12, reason = ''vi - Melancholic start'', category = moderate\<rparr>,
      \<lparr>degree = 1, probability = 0.08, reason = ''ii - Jazz influence'', category = adventurous\<rparr>]"

text \<open>
  \<^verbatim>\<open>.sort((a, b) => b.probability - a.probability)\<close>: a stable sort by descending
  probability.
\<close>

definition sortByProbability :: "ChordSuggestion list \<Rightarrow> ChordSuggestion list" where
  "sortByProbability xs = sort_key (\<lambda>s. - probability s) xs"

text \<open>The scores of the seven degrees after the creativity pass.\<close>

definition finalScores :: "ChordHistory list \<Rightarrow> (nat \<Rightarrow> real) \<Rightarrow> (int \<times> ScoreEntry) list" where
  "finalScores history rnd =
     (let lastChord = history ! (length history - 1);
          secondLastChord = (if length history > 1 then Some (history ! (length history - 2)) else None);
          scores = foldl (\<lambda>scores d. obj_set d (scoreDegree lastChord secondLastChord d) scores) []
                     [0, 1, 2, 3, 4, 5, 6]
      in addCreativityBonus rnd scores)"

text \<open>
  The suggestions of a non-empty history, sorted, before the four best are kept. Every
  score is positive when the draws are in \<open>[0, 1)\<close>, so \<open>totalScore\<close> is not zero
  and the division is the real quotient.
\<close>

definition rankedSuggestions :: "ChordHistory list \<Rightarrow> (nat \<Rightarrow> real) \<Rightarrow> ChordSuggestion list" where
  "rankedSuggestions history rnd =
     (let scores = finalScores history rnd;
          totalScore = foldl (\<lambda>sum s. sum + score s) 0 (map snd scores)
      in sortByProbability
           (map (\<lambda>(d, data).
                   (let prob = score data / totalScore;
                        joined = join '', '' (reasons data)
                    in \<lparr>degree = d,
                        probability = prob,
                        reason = (if joined = [] then ''Possible choice'' else joined),
                        category = (if prob > 0.3 then strong
                                    else if prob > 0.15 then moderate
                                    else adventurous)\<rparr>))
                scores))"

text \<open>
  \<^verbatim>\<open>suggestNextChords(history, _bpm, _currentTime)\<close>; the last two parameters are not
  read. On an empty history the starter list is first sorted with the comparator
  \<^verbatim>\<open>() => Math.random() - 0.5\<close>, which answers at random: the array that comes out
  depends on the engine, and is the parameter \<open>shuffle\<close> applied to the starter list.
  Every engine returns a rearrangement of the array it was given.
\<close>

definition suggestNextChords ::
  "ChordHistory list \<Rightarrow> (ChordSuggestion list \<Rightarrow> ChordSuggestion list) \<Rightarrow> (nat \<Rightarrow> real)
     \<Rightarrow> ChordSuggestion list" where
  "suggestNextChords history shuffle rnd =
     (if length history = 0
      then sortByProbability (take 3 (shuffle startOptions))
      else take 4 (rankedSuggestions history rnd))"

section \<open>Properties of the chord model\<close>

lemma invert_length_pc:
  "n \<le> length xs \<Longrightarrow>
     length (invert n xs) = length xs
     \<and> image_mset (\<lambda>p. p mod 12) (mset (invert n xs)) = image_mset (\<lambda>p. p mod 12) (mset xs)"
proof (induction n xs rule: invert.induct)
  case (1 inverted)
  show ?case by simp
next
  case (2 n)
  then show ?case by simp
next
  case (3 n x rest)
  then show ?case by simp
qed

lemma generateChord_accepts:
  "1 \<le> scaleDegree \<Longrightarrow> scaleDegree \<le> 7 \<Longrightarrow>
     \<exists>pitches. generateChord key scaleDegree chordType inversion octave = Inr pitches"
  by (simp add: generateChord_def Let_def)

text \<open>
  Claim C7. For a scale degree in 1..7, any key, chord type and octave: an inversion
  strictly between 0 and the number of pitches returns as many pitches as the root
  position, with the same multiset of pitch classes (pitch modulo 12); an inversion
  greater than or equal to the number of pitches returns the root position itself.
\<close>

theorem inversion_preserves_pitch_classes:
  assumes "1 \<le> scaleDegree" "scaleDegree \<le> 7"
  shows "\<exists>root inverted.
           generateChord key scaleDegree chordType 0 octave = Inr root
         \<and> generateChord key scaleDegree chordType inversion octave = Inr inverted
         \<and> (0 < inversion \<and> inversion < int (length root) \<longrightarrow>
               length inverted = length root
             \<and> image_mset (\<lambda>p. p mod 12) (mset inverted) = image_mset (\<lambda>p. p mod 12) (mset root))
         \<and> (int (length root) \<le> inversion \<longrightarrow> inverted = root)"
proof -
  define midi where "midi = midiNotes key scaleDegree chordType octave"
  have root: "generateChord key scaleDegree chordType 0 octave = Inr midi"
    using assms by (simp add: generateChord_def midi_def)
  show ?thesis
  proof (cases "0 < inversion \<and> inversion < int (length midi)")
    case True
    then have n: "nat inversion \<le> length midi" by linarith
    have inv: "generateChord key scaleDegree chordType inversion octave = Inr (invert (nat inversion) midi)"
      using assms True by (simp add: generateChord_def midi_def)
    show ?thesis
      using root inv invert_length_pc[OF n] True by auto
  next
    case False
    then have "generateChord key scaleDegree chordType inversion octave = Inr midi"
      using assms by (auto simp add: generateChord_def midi_def Let_def)
    with root False show ?thesis by auto
  qed
qed

theorem inversion_preserves_pitch_classes_witness:
  "(1::int) \<le> 1 \<and> (1::int) \<le> 7
   \<and> generateChord C 1 (Some Major) 0 4 = Inr [60, 64, 67]
   \<and> generateChord C 1 (Some Major) 1 4 = Inr [64, 67, 72]
   \<and> generateChord C 1 (Some Major) 3 4 = Inr [60, 64, 67]
   \<and> (\<exists>root inverted.
           generateChord C 1 (Some Major) 0 4 = Inr root
         \<and> generateChord C 1 (Some Major) 1 4 = Inr inverted
         \<and> (0 < (1::int) \<and> 1 < int (length root) \<longrightarrow>
               length inverted = length root
             \<and> image_mset (\<lambda>p. p mod 12) (mset inverted) = image_mset (\<lambda>p. p mod 12) (mset root))
         \<and> (int (length root) \<le> 1 \<longrightarrow> inverted = root))"
proof -
  have a: "generateChord C 1 (Some Major) 0 4 = Inr [60, 64, 67]"
    by (simp add: generateChord_def midiNotes_def getNoteIndex_def NOTES_def MAJOR_SCALE_def js_rem_def)
  have b: "generateChord C 1 (Some Major) 1 4 = Inr [64, 67, 72]"
    by (simp add: generateChord_def midiNotes_def getNoteIndex_def NOTES_def MAJOR_SCALE_def js_rem_def)
  have c: "generateChord C 1 (Some Major) 3 4 = Inr [60, 64, 67]"
    by (simp add: generateChord_def midiNotes_def getNoteIndex_def NOTES_def MAJOR_SCALE_def js_rem_def)
  show ?thesis
    using a b c inversion_preserves_pitch_classes[of 1 C "Some Major" 4 1] by simp
qed

text \<open>
  Claim C8. The chord constructor returns the error
  \<^verbatim>\<open>Error('Scale degree must be between 1 and 7')\<close> exactly when the scale degree is
  below 1 or above 7: always outside the range (no clamping), never inside it.
\<close>

theorem invalid_degree_fails:
  "generateChord key scaleDegree chordType inversion octave
     = Inl (Error ''Scale degree must be between 1 and 7'')
   \<longleftrightarrow> scaleDegree < 1 \<or> scaleDegree > 7"
  by (simp add: generateChord_def Let_def)

theorem invalid_degree_fails_witness:
  "generateChord C 0 None 0 3 = Inl (Error ''Scale degree must be between 1 and 7'')
   \<and> generateChord C 8 None 0 3 = Inl (Error ''Scale degree must be between 1 and 7'')
   \<and> generateChord C 7 None 0 3 \<noteq> Inl (Error ''Scale degree must be between 1 and 7'')"
  using invalid_degree_fails[of C 0 None 0 3] invalid_degree_fails[of C 8 None 0 3]
    invalid_degree_fails[of C 7 None 0 3]
  by simp

section \<open>Properties of the rhythm generator\<close>

subsection \<open>Euclidean rhythm\<close>

lemma bucket_step:
  assumes "0 < steps" "pulses \<le> steps"
  shows "bucket steps pulses (Suc i) = bucket steps pulses i
       \<or> bucket steps pulses (Suc i) = bucket steps pulses i + 1"
proof -
  have lo: "(i * pulses) div steps \<le> (Suc i * pulses) div steps"
    by (rule div_le_mono) simp
  have "(Suc i * pulses) div steps \<le> (i * pulses + steps) div steps"
    by (rule div_le_mono) (use assms in simp)
  also have "\<dots> = (i * pulses) div steps + 1"
    using assms by simp
  finally have hi: "(Suc i * pulses) div steps \<le> (i * pulses) div steps + 1" .
  from lo hi show ?thesis
    unfolding bucket_def by linarith
qed

lemma bucket_last:
  assumes "0 < pulses" "pulses < steps"
  shows "bucket steps pulses (steps - 1) = int pulses - 1"
proof -
  obtain q where q: "pulses = Suc q" using assms(1) by (cases pulses) auto
  obtain t where t: "steps = Suc t" using assms by (cases steps) auto
  have "(t * pulses) div steps = q"
  proof (rule div_nat_eqI)
    have "steps * q = t * q + q" by (simp add: t)
    also have "\<dots> \<le> t * q + t" using assms q t by simp
    also have "\<dots> = t * pulses" by (simp add: q)
    finally show "steps * q \<le> t * pulses" .
    show "t * pulses < steps * Suc q" by (simp add: q t)
  qed
  then show ?thesis by (simp add: bucket_def q t)
qed

text \<open>Each change of bucket is one pulse: after \<open>n + 1\<close> steps the count is the last bucket plus one.\<close>

lemma count_flips:
  assumes "0 < steps" "pulses \<le> steps"
  defines "f \<equiv> (\<lambda>i. bucket steps pulses i \<noteq> (if i > 0 then bucket steps pulses (i - 1) else - 1))"
  shows "int (length (filter id (map f [0..<Suc n]))) = bucket steps pulses n + 1"
proof (induction n)
  case 0
  have "[0..<Suc 0] = [0]" by simp
  then show ?case by (simp add: bucket_def f_def)
next
  case (Suc n)
  have split: "[0..<Suc (Suc n)] = [0..<Suc n] @ [Suc n]" by simp
  have "int (length (filter id (map f [0..<Suc (Suc n)])))
      = int (length (filter id (map f [0..<Suc n]))) + (if f (Suc n) then 1 else 0)"
    unfolding split by simp
  also have "\<dots> = bucket steps pulses n + 1 + (if f (Suc n) then 1 else 0)"
    by (simp only: Suc.IH)
  also have "\<dots> = bucket steps pulses (Suc n) + 1"
    using bucket_step[OF assms(1,2), of n] by (auto simp: f_def)
  finally show ?case .
qed

text \<open>
  Claim C1. For pulses \<open>\<le>\<close> steps the Euclidean rhythm has length \<open>steps\<close> and exactly
  \<open>pulses\<close> true entries; pulses = steps gives all true, pulses = 0 all false.
\<close>

theorem euclid_pulse_count:
  assumes "pulses \<le> steps"
  shows "length (euclideanRhythm steps pulses) = steps
       \<and> length (filter id (euclideanRhythm steps pulses)) = pulses
       \<and> (pulses = steps \<longrightarrow> euclideanRhythm steps pulses = replicate steps True)
       \<and> (pulses = 0 \<longrightarrow> euclideanRhythm steps pulses = replicate steps False)"
proof -
  have len: "length (euclideanRhythm steps pulses) = steps"
    by (simp add: euclideanRhythm_def)
  have cnt: "length (filter id (euclideanRhythm steps pulses)) = pulses"
  proof (cases "steps \<le> pulses")
    case True
    with assms show ?thesis by (simp add: euclideanRhythm_def)
  next
    case False
    note lt = this
    show ?thesis
    proof (cases "pulses = 0")
      case True
      then show ?thesis by (simp add: euclideanRhythm_def)
    next
      case False
      with lt have p: "0 < pulses" "pulses < steps" by simp_all
      then obtain t where t: "steps = Suc t" by (cases steps) auto
      have "int (length (filter id (euclideanRhythm steps pulses))) = bucket steps pulses t + 1"
      proof -
        have "euclideanRhythm steps pulses
                = map (\<lambda>i. bucket steps pulses i \<noteq> (if i > 0 then bucket steps pulses (i - 1) else - 1))
                    [0..<Suc t]"
          using p unfolding euclideanRhythm_def t by simp
        then show ?thesis
          using count_flips[of steps pulses t] p by simp
      qed
      also have "\<dots> = int pulses" using bucket_last[OF p] by (simp add: t)
      finally show ?thesis by simp
    qed
  qed
  have full: "pulses = steps \<longrightarrow> euclideanRhythm steps pulses = replicate steps True"
    by (simp add: euclideanRhythm_def)
  have none: "pulses = 0 \<longrightarrow> euclideanRhythm steps pulses = replicate steps False"
    by (auto simp add: euclideanRhythm_def)
  from len cnt full none show ?thesis by blast
qed

theorem euclid_pulse_count_witness:
  "(4::nat) \<le> 16 \<and> length (euclideanRhythm 16 4) = 16
   \<and> length (filter id (euclideanRhythm 16 4)) = 4
   \<and> euclideanRhythm 16 16 = replicate 16 True
   \<and> euclideanRhythm 16 0 = replicate 16 False"
  using euclid_pulse_count[of 4 16] euclid_pulse_count[of 16 16] euclid_pulse_count[of 0 16]
  by simp

subsection \<open>Tension curve\<close>

text \<open>
  Claim C9 asks that a curve of length 1 be defined for every curve type. The code has no
  case for it: for \<open>arc\<close>, \<open>wave\<close>, \<open>buildup\<close> and \<open>release\<close> the single iteration
  divides 0 by \<open>length - 1 = 0\<close>, and the curve is \<open>[NaN]\<close>. Only the default case,
  taken for an unknown type, gives the constant 0.5.
\<close>

theorem tension_curve_length_one_nan:
  "generateTensionCurve 1 ''arc'' rnd = [NaN]
   \<and> generateTensionCurve 1 ''wave'' rnd = [NaN]
   \<and> generateTensionCurve 1 ''buildup'' rnd = [NaN]
   \<and> generateTensionCurve 1 ''release'' rnd = [NaN]
   \<and> generateTensionCurve 1 ''flat'' rnd = [Num 0.5]"
  by (simp add: generateTensionCurve_def tensionAt_def js_sub_def)

subsection \<open>Weighted selection: the result is a degree\<close>

lemma selectLoop_range:
  "\<forall>d\<in>set (map fst weights). 1 \<le> d \<and> d \<le> 7 \<Longrightarrow>
     1 \<le> selectLoop fl weights r \<and> selectLoop fl weights r \<le> 7"
  by (induction fl weights r rule: selectLoop.induct) (auto simp: Let_def)

lemma obj_set_keys: "fst ` set (obj_set k v obj) = insert k (fst ` set obj)"
  by (induction obj) (force+)

lemma foldl_obj_set_keys:
  "set (map fst (foldl (\<lambda>obj (k, v). obj_set k (f v) obj) acc entries))
     = set (map fst acc) \<union> set (map fst entries)"
proof (induction entries arbitrary: acc)
  case Nil
  show ?case by simp
next
  case (Cons e entries)
  obtain k v where e: "e = (k, v)" by (cases e)
  show ?case
    unfolding e using Cons[of "obj_set k (f v) acc"] by (simp add: obj_set_keys Un_commute insert_commute)
qed

lemma obj_literal_keys: "set (map fst (obj_literal entries)) = set (map fst entries)"
  using foldl_obj_set_keys[of "\<lambda>v. v" "[]" entries] by (simp add: obj_literal_def)

lemma table_keys:
  "\<forall>row\<in>set (map snd MARKOV_2ND_ORDER @ map snd MARKOV_1ST_ORDER).
     \<forall>d\<in>set (map fst row). 1 \<le> d \<and> d \<le> 7"
  by (simp add: MARKOV_2ND_ORDER_def MARKOV_1ST_ORDER_def)

text \<open>
  The weight object before the tension pass: empty when the previous chord is in
  neither table, the three starting weights when there is no previous chord, the row of
  a table otherwise.
\<close>

lemma baseWeights_cases:
  "(baseWeights fl previousChord secondPreviousChord = []
      \<and> (\<exists>prev. previousChord = Some prev \<and> map_of MARKOV_1ST_ORDER prev = None))
   \<or> baseWeights fl previousChord secondPreviousChord
        = obj_set 4 (Num (fl 0.1)) (obj_set 5 (Num (fl 0.3)) (obj_set 1 (Num (fl 0.6)) []))
   \<or> (\<exists>row\<in>set (map snd MARKOV_2ND_ORDER @ map snd MARKOV_1ST_ORDER).
         baseWeights fl previousChord secondPreviousChord
           = foldl (\<lambda>weights (degree, prob). obj_set degree (Num (fl prob)) weights) []
               (obj_literal row))"
proof (cases previousChord)
  case None
  then show ?thesis by (simp add: baseWeights_def)
next
  case (Some prev)
  define second_order where
    "second_order = (case (case secondPreviousChord of Some second \<Rightarrow> Some (second, prev) | None \<Rightarrow> None) of
                       Some p \<Rightarrow> map_of MARKOV_2ND_ORDER p | None \<Rightarrow> None)"
  define transitions where
    "transitions = (case second_order of
                      Some t \<Rightarrow> t
                    | None \<Rightarrow> (case map_of MARKOV_1ST_ORDER prev of Some t \<Rightarrow> t | None \<Rightarrow> []))"
  have eq: "baseWeights fl previousChord secondPreviousChord
          = foldl (\<lambda>weights (degree, prob). obj_set degree (Num (fl prob)) weights) []
              (obj_literal transitions)"
    by (simp add: baseWeights_def Some Let_def transitions_def second_order_def)
  have "(transitions = [] \<and> map_of MARKOV_1ST_ORDER prev = None)
        \<or> transitions \<in> set (map snd MARKOV_2ND_ORDER @ map snd MARKOV_1ST_ORDER)"
  proof (cases second_order)
    case (Some t)
    then obtain p where "map_of MARKOV_2ND_ORDER p = Some t"
      unfolding second_order_def by (auto split: option.splits)
    then have "(p, t) \<in> set MARKOV_2ND_ORDER" by (rule map_of_SomeD)
    then have "t \<in> set (map snd MARKOV_2ND_ORDER)" by force
    with Some show ?thesis by (simp add: transitions_def)
  next
    case None
    show ?thesis
    proof (cases "map_of MARKOV_1ST_ORDER prev")
      case (Some t)
      then have "(prev, t) \<in> set MARKOV_1ST_ORDER" by (rule map_of_SomeD)
      then have "t \<in> set (map snd MARKOV_1ST_ORDER)" by force
      with Some \<open>second_order = None\<close> show ?thesis by (simp add: transitions_def)
    next
      case None
      with \<open>second_order = None\<close> show ?thesis by (simp add: transitions_def)
    qed
  qed
  then show ?thesis
  proof
    assume "transitions = [] \<and> map_of MARKOV_1ST_ORDER prev = None"
    with eq Some show ?thesis by (simp add: obj_literal_def)
  next
    assume "transitions \<in> set (map snd MARKOV_2ND_ORDER @ map snd MARKOV_1ST_ORDER)"
    with eq show ?thesis by blast
  qed
qed

lemma baseWeights_keys:
  "\<forall>d\<in>set (map fst (baseWeights fl previousChord secondPreviousChord)). 1 \<le> d \<and> d \<le> 7"
proof -
  have row: "\<forall>d\<in>set (map fst (foldl (\<lambda>weights (degree, prob). obj_set degree (Num (fl prob)) weights) []
                                  (obj_literal row))). 1 \<le> d \<and> d \<le> 7"
    if "row \<in> set (map snd MARKOV_2ND_ORDER @ map snd MARKOV_1ST_ORDER)" for row
    using table_keys that
      foldl_obj_set_keys[of "\<lambda>p. Num (fl p)" "[]" "obj_literal row"] obj_literal_keys[of row]
    by simp
  from baseWeights_cases[of fl previousChord secondPreviousChord] show ?thesis
  proof (elim disjE bexE conjE)
    assume "baseWeights fl previousChord secondPreviousChord = []"
    then show ?thesis by simp
  next
    assume "baseWeights fl previousChord secondPreviousChord
              = obj_set 4 (Num (fl 0.1)) (obj_set 5 (Num (fl 0.3)) (obj_set 1 (Num (fl 0.6)) []))"
    then show ?thesis by simp
  next
    fix r
    assume "r \<in> set (map snd MARKOV_2ND_ORDER @ map snd MARKOV_1ST_ORDER)"
      and "baseWeights fl previousChord secondPreviousChord
             = foldl (\<lambda>weights (degree, prob). obj_set degree (Num (fl prob)) weights) []
                 (obj_literal r)"
    with row[of r] show ?thesis by simp
  qed
qed

lemma tensionAdjust_keys: "map fst (tensionAdjust fl t weights) = map fst weights"
  by (induction weights) (auto simp: tensionAdjust_def Let_def)

lemma creativityAdjust_keys: "map fst (creativityAdjust fl c rnd weights) = map fst weights"
proof -
  have "map fst (creativityAdjust fl c rnd weights)
          = map (\<lambda>(j, (d, w)). d) (zip [0..<length weights] weights)"
    by (auto simp: creativityAdjust_def Let_def)
  also have "\<dots> = map (fst \<circ> snd) (zip [0..<length weights] weights)"
    by (rule map_cong) auto
  also have "\<dots> = map fst (map snd (zip [0..<length weights] weights))"
    by (simp only: map_map)
  also have "map snd (zip [0..<length weights] weights) = weights"
    by (rule map_snd_zip) simp
  finally show ?thesis .
qed

lemma selectionWeights_keys_eq:
  "map fst (selectionWeights fl t p s c rnd) = map fst (baseWeights fl p s)"
  by (simp add: selectionWeights_def Let_def tensionAdjust_keys creativityAdjust_keys)

lemma selectionWeights_keys:
  "\<forall>d\<in>set (map fst (selectionWeights fl t p s c rnd)). 1 \<le> d \<and> d \<le> 7"
  using baseWeights_keys by (simp only: selectionWeights_keys_eq)

lemma select_range:
  "1 \<le> selectChordForTension fl t p s c rnd \<and> selectChordForTension fl t p s c rnd \<le> 7"
  using selectLoop_range[OF selectionWeights_keys]
  by (simp add: weightedSelect_def selectChordForTension_def Let_def)

subsection \<open>Weights built from a tension in range are positive\<close>

lemma rounding_nonneg: "rounding fl \<Longrightarrow> 0 \<le> x \<Longrightarrow> 0 \<le> fl x"
  unfolding rounding_def by metis

lemma rounding_ge_one: "rounding fl \<Longrightarrow> 1 \<le> x \<Longrightarrow> 1 \<le> fl x"
  unfolding rounding_def by metis

lemma rounding_le_one: "rounding fl \<Longrightarrow> x \<le> 1 \<Longrightarrow> fl x \<le> 1"
  unfolding rounding_def by metis

lemma rounding_ge_minus_one: "rounding fl \<Longrightarrow> - 1 \<le> x \<Longrightarrow> - 1 \<le> fl x"
  unfolding rounding_def by metis

lemma rounding_pos: "rounding fl \<Longrightarrow> 1 / 128 \<le> x \<Longrightarrow> 0 < fl x"
proof -
  assume r: "rounding fl" and x: "1 / 128 \<le> x"
  from r x have "fl (1 / 128) \<le> fl x" unfolding rounding_def by blast
  moreover from r have "fl (1 / 128) = 1 / 128" unfolding rounding_def by blast
  ultimately show ?thesis by simp
qed

lemma rounding_fixed: "rounding fl \<Longrightarrow> fl (fl x) = fl x"
  unfolding rounding_def by blast

lemma rounding_mono: "rounding fl \<Longrightarrow> x \<le> y \<Longrightarrow> fl x \<le> fl y"
  unfolding rounding_def by blast


lemma mul_ge_one:
  assumes "rounding fl" "js_nonneg w" "js_fixed fl w" "1 \<le> b"
  shows "js_nonneg (fl_mul fl w (Num b))" "js_fixed fl (fl_mul fl w (Num b))"
    "js_pos w \<Longrightarrow> js_pos (fl_mul fl w (Num b))"
proof -
  from assms(2) obtain a where w: "w = Num a" and a: "0 \<le> a" by (cases w) auto
  from assms(3) w have fa: "fl a = a" by simp
  have "a \<le> a * b" using a assms(4) by (simp add: mult_le_cancel_left1)
  then have ge: "a \<le> fl (a * b)" using rounding_mono[OF assms(1), of a "a * b"] fa by simp
  show "js_nonneg (fl_mul fl w (Num b))" using ge a by (simp add: fl_mul_def w)
  show "js_fixed fl (fl_mul fl w (Num b))"
    by (simp add: fl_mul_def w rounding_fixed[OF assms(1)])
  show "js_pos (fl_mul fl w (Num b))" if "js_pos w"
    using that ge by (simp add: fl_mul_def w)
qed

lemma add_nonneg:
  assumes "rounding fl" "js_nonneg x" "js_fixed fl x" "js_nonneg y" "js_fixed fl y"
  shows "js_nonneg (fl_add fl x y)" "js_fixed fl (fl_add fl x y)"
    "js_pos x \<Longrightarrow> js_pos (fl_add fl x y)" "js_pos y \<Longrightarrow> js_pos (fl_add fl x y)"
proof -
  from assms(2) obtain a where x: "x = Num a" and a: "0 \<le> a" by (cases x) auto
  from assms(4) obtain b where y: "y = Num b" and b: "0 \<le> b" by (cases y) auto
  from assms(3,5) x y have fa: "fl a = a" and fb: "fl b = b" by simp_all
  have gea: "a \<le> fl (a + b)" using rounding_mono[OF assms(1), of a "a + b"] fa b by simp
  have geb: "b \<le> fl (a + b)" using rounding_mono[OF assms(1), of b "a + b"] fb a by simp
  show "js_nonneg (fl_add fl x y)" using gea a by (simp add: fl_add_def x y)
  show "js_fixed fl (fl_add fl x y)" by (simp add: fl_add_def x y rounding_fixed[OF assms(1)])
  show "js_pos (fl_add fl x y)" if "js_pos x" using that gea by (simp add: fl_add_def x y)
  show "js_pos (fl_add fl x y)" if "js_pos y" using that geb by (simp add: fl_add_def x y)
qed

lemma total_nonneg:
  assumes "rounding fl"
  shows "js_nonneg acc \<and> js_fixed fl acc \<Longrightarrow> \<forall>w\<in>set ws. js_nonneg w \<and> js_fixed fl w \<Longrightarrow>
           js_nonneg (foldl (fl_add fl) acc ws) \<and> js_fixed fl (foldl (fl_add fl) acc ws)
         \<and> (js_pos acc \<longrightarrow> js_pos (foldl (fl_add fl) acc ws))"
proof (induction ws arbitrary: acc)
  case Nil
  then show ?case by simp
next
  case (Cons w ws)
  from Cons.prems have w: "js_nonneg w" "js_fixed fl w" and acc: "js_nonneg acc" "js_fixed fl acc"
    by simp_all
  note step = add_nonneg[OF assms acc w]
  from Cons.IH[of "fl_add fl acc w"] step Cons.prems(2) show ?case by simp
qed

lemma total_pos:
  assumes "rounding fl"
  shows "js_nonneg acc \<and> js_fixed fl acc \<Longrightarrow> \<forall>w\<in>set ws. js_nonneg w \<and> js_fixed fl w \<Longrightarrow>
           \<exists>w\<in>set ws. js_pos w \<Longrightarrow> js_pos (foldl (fl_add fl) acc ws)"
proof (induction ws arbitrary: acc)
  case Nil
  then show ?case by simp
next
  case (Cons w ws)
  from Cons.prems have w: "js_nonneg w" "js_fixed fl w" and acc: "js_nonneg acc" "js_fixed fl acc"
    and rest: "\<forall>w\<in>set ws. js_nonneg w \<and> js_fixed fl w"
    by simp_all
  note step = add_nonneg[OF assms acc w]
  show ?case
  proof (cases "js_pos w")
    case True
    with step(4) have "js_pos (fl_add fl acc w)" by simp
    with total_nonneg[OF assms, of "fl_add fl acc w" ws] step(1,2) rest show ?thesis by simp
  next
    case False
    with Cons.prems(3) have "\<exists>w\<in>set ws. js_pos w" by simp
    with Cons.IH[of "fl_add fl acc w"] step(1,2) rest show ?thesis by simp
  qed
qed

lemma chordTension_range:
  assumes "1 \<le> d" "d \<le> 7"
  shows "js_nonneg (chordTensionOf d) \<and> js_le (chordTensionOf d) (Num 1)"
proof -
  from assms have "d = 1 \<or> d = 2 \<or> d = 3 \<or> d = 4 \<or> d = 5 \<or> d = 6 \<or> d = 7" by arith
  then show ?thesis
    by (auto simp: chordTensionOf_def CHORD_TENSION_MAP_def)
qed

lemma tension_factor:
  assumes "rounding fl" "0 \<le> t" "t \<le> 1" "1 \<le> d" "d \<le> 7"
  shows "\<exists>b. fl_add fl (Num 1)
               (fl_mul fl (fl_sub fl (Num 1) (js_abs (fl_sub fl (Num t) (js_round fl (chordTensionOf d)))))
                  (Num 2)) = Num b \<and> 1 \<le> b"
proof -
  from chordTension_range[OF assms(4,5)] obtain c where c: "chordTensionOf d = Num c" "0 \<le> c" "c \<le> 1"
    by (cases "chordTensionOf d") auto
  have c0: "0 \<le> fl c" by (rule rounding_nonneg[OF assms(1) c(2)])
  have c1: "fl c \<le> 1" by (rule rounding_le_one[OF assms(1) c(3)])
  have "t - fl c \<le> 1" using assms(2,3) c0 by simp
  then have d1: "fl (t - fl c) \<le> 1" by (rule rounding_le_one[OF assms(1)])
  have "- 1 \<le> t - fl c" using assms(2,3) c1 by simp
  then have d2: "- 1 \<le> fl (t - fl c)" by (rule rounding_ge_minus_one[OF assms(1)])
  from d1 d2 have "0 \<le> 1 - \<bar>fl (t - fl c)\<bar>" by simp
  then have m: "0 \<le> fl (1 - \<bar>fl (t - fl c)\<bar>)" by (rule rounding_nonneg[OF assms(1)])
  then have "0 \<le> fl (1 - \<bar>fl (t - fl c)\<bar>) * 2" by simp
  then have "0 \<le> fl (fl (1 - \<bar>fl (t - fl c)\<bar>) * 2)" by (rule rounding_nonneg[OF assms(1)])
  then have "1 \<le> 1 + fl (fl (1 - \<bar>fl (t - fl c)\<bar>) * 2)" by simp
  then have "1 \<le> fl (1 + fl (fl (1 - \<bar>fl (t - fl c)\<bar>) * 2))" by (rule rounding_ge_one[OF assms(1)])
  then show ?thesis
    by (simp add: c(1) fl_add_def fl_mul_def fl_sub_def js_sub_def)
qed

lemma tensionAdjust_good:
  assumes "rounding fl" "0 \<le> t" "t \<le> 1" "\<forall>d\<in>set (map fst ws). 1 \<le> d \<and> d \<le> 7"
    "\<forall>w\<in>set (map snd ws). js_nonneg w \<and> js_fixed fl w"
  shows "\<forall>w\<in>set (map snd (tensionAdjust fl (Num t) ws)). js_nonneg w \<and> js_fixed fl w"
    "\<exists>w\<in>set (map snd ws). js_pos w \<Longrightarrow> \<exists>w\<in>set (map snd (tensionAdjust fl (Num t) ws)). js_pos w"
proof -
  let ?f = "\<lambda>d. fl_add fl (Num 1)
               (fl_mul fl (fl_sub fl (Num 1) (js_abs (fl_sub fl (Num t) (js_round fl (chordTensionOf d)))))
                  (Num 2))"
  have adj: "tensionAdjust fl (Num t) ws = map (\<lambda>(d, w). (d, fl_mul fl w (?f d))) ws"
    by (simp add: tensionAdjust_def Let_def)
  have one: "js_nonneg (fl_mul fl w (?f d)) \<and> js_fixed fl (fl_mul fl w (?f d))
             \<and> (js_pos w \<longrightarrow> js_pos (fl_mul fl w (?f d)))"
    if "(d, w) \<in> set ws" for d w
  proof -
    from that assms(4,5) have d: "1 \<le> d" "d \<le> 7" and w: "js_nonneg w" "js_fixed fl w" by force+
    from tension_factor[OF assms(1,2,3) d] obtain b where b: "?f d = Num b" "1 \<le> b" by blast
    from mul_ge_one[OF assms(1) w b(2)] show ?thesis by (simp add: b(1))
  qed
  show "\<forall>w\<in>set (map snd (tensionAdjust fl (Num t) ws)). js_nonneg w \<and> js_fixed fl w"
    unfolding adj using one by auto
  show "\<exists>w\<in>set (map snd (tensionAdjust fl (Num t) ws)). js_pos w"
    if "\<exists>w\<in>set (map snd ws). js_pos w"
  proof -
    from that obtain d w where dw: "(d, w) \<in> set ws" "js_pos w" by auto
    from one[OF dw(1)] dw(2) have "js_pos (fl_mul fl w (?f d))" by simp
    moreover have "(d, fl_mul fl w (?f d)) \<in> set (tensionAdjust fl (Num t) ws)"
      unfolding adj using dw(1) by force
    ultimately show ?thesis by force
  qed
qed


lemma table_weights_good:
  assumes "rounding fl"
  shows "\<forall>row\<in>set (map snd MARKOV_2ND_ORDER @ map snd MARKOV_1ST_ORDER).
     (\<forall>w\<in>set (map snd (foldl (\<lambda>weights (degree, prob). obj_set degree (Num (fl prob)) weights) []
                           (obj_literal row))). js_nonneg w \<and> js_fixed fl w)
   \<and> (\<exists>w\<in>set (map snd (foldl (\<lambda>weights (degree, prob). obj_set degree (Num (fl prob)) weights) []
                           (obj_literal row))). js_pos w)"
  by (simp add: MARKOV_2ND_ORDER_def MARKOV_1ST_ORDER_def obj_literal_def
        rounding_nonneg[OF assms] rounding_pos[OF assms] rounding_fixed[OF assms])

lemma start_weights_good:
  assumes "rounding fl"
  shows "(\<forall>w\<in>set (map snd (obj_set 4 (Num (fl 0.1)) (obj_set 5 (Num (fl 0.3)) (obj_set 1 (Num (fl 0.6)) [])))).
            js_nonneg w \<and> js_fixed fl w)
       \<and> (\<exists>w\<in>set (map snd (obj_set 4 (Num (fl 0.1)) (obj_set 5 (Num (fl 0.3)) (obj_set 1 (Num (fl 0.6)) [])))).
            js_pos w)"
  by (simp add: rounding_nonneg[OF assms] rounding_pos[OF assms] rounding_fixed[OF assms])

lemma baseWeights_good:
  assumes "rounding fl"
  shows "\<forall>w\<in>set (map snd (baseWeights fl p s)). js_nonneg w \<and> js_fixed fl w"
    "baseWeights fl p s \<noteq> [] \<Longrightarrow> \<exists>w\<in>set (map snd (baseWeights fl p s)). js_pos w"
  using baseWeights_cases[of fl p s] table_weights_good[OF assms] start_weights_good[OF assms]
  by (elim disjE bexE conjE; simp del: set_append set_map)+

lemma first_order_rows: "1 \<le> prev \<Longrightarrow> prev \<le> 7 \<Longrightarrow> map_of MARKOV_1ST_ORDER prev \<noteq> None"
proof -
  assume "1 \<le> prev" "prev \<le> 7"
  then have "prev = 1 \<or> prev = 2 \<or> prev = 3 \<or> prev = 4 \<or> prev = 5 \<or> prev = 6 \<or> prev = 7" by arith
  then show ?thesis by (auto simp: MARKOV_1ST_ORDER_def)
qed

lemma baseWeights_nonempty:
  assumes "previousChord = None \<or> (\<exists>prev. previousChord = Some prev \<and> 1 \<le> prev \<and> prev \<le> 7)"
  shows "baseWeights fl previousChord secondPreviousChord \<noteq> []"
proof
  assume e: "baseWeights fl previousChord secondPreviousChord = []"
  from baseWeights_cases[of fl previousChord secondPreviousChord]
  show False
  proof (elim disjE bexE conjE exE)
    fix prev
    assume "previousChord = Some prev" "map_of MARKOV_1ST_ORDER prev = None"
    with assms first_order_rows[of prev] show False by auto
  next
    assume "baseWeights fl previousChord secondPreviousChord
              = obj_set 4 (Num (fl 0.1)) (obj_set 5 (Num (fl 0.3)) (obj_set 1 (Num (fl 0.6)) []))"
    with e show False by simp
  next
    fix r
    assume r: "r \<in> set (map snd MARKOV_2ND_ORDER @ map snd MARKOV_1ST_ORDER)"
      and "baseWeights fl previousChord secondPreviousChord
             = foldl (\<lambda>weights (degree, prob). obj_set degree (Num (fl prob)) weights) []
                 (obj_literal r)"
    with e have "set (map fst (foldl (\<lambda>weights (degree, prob). obj_set degree (Num (fl prob)) weights) []
                 (obj_literal r))) = {}" by simp
    then have "set (map fst r) = {}"
      using foldl_obj_set_keys[of "\<lambda>p. Num (fl p)" "[]" "obj_literal r"] obj_literal_keys[of r]
      by simp
    then have "r = []" by simp
    with r show False by (simp add: MARKOV_2ND_ORDER_def MARKOV_1ST_ORDER_def)
  qed
qed

lemma creativity_factors:
  assumes "rounding fl" "0 < c" "0 \<le> u"
  shows "1 \<le> fl (1 + fl (fl (u * c) * fl 0.5))" "1 \<le> fl (1 + c)"
proof -
  have "0 \<le> u * c" using assms(2,3) by simp
  then have a: "0 \<le> fl (u * c)" by (rule rounding_nonneg[OF assms(1)])
  have b: "0 \<le> fl 0.5" by (rule rounding_nonneg[OF assms(1)]) simp
  from a b have "0 \<le> fl (u * c) * fl 0.5" by simp
  then have "0 \<le> fl (fl (u * c) * fl 0.5)" by (rule rounding_nonneg[OF assms(1)])
  then have "1 \<le> 1 + fl (fl (u * c) * fl 0.5)" by simp
  then show "1 \<le> fl (1 + fl (fl (u * c) * fl 0.5))" by (rule rounding_ge_one[OF assms(1)])
  have "1 \<le> 1 + c" using assms(2) by simp
  then show "1 \<le> fl (1 + c)" by (rule rounding_ge_one[OF assms(1)])
qed

lemma creativity_step:
  fixes d :: int
  assumes "rounding fl" "0 < c" "0 \<le> u" "js_nonneg w" "js_fixed fl w"
  defines "w' \<equiv> fl_mul fl w (Num (fl (1 + fl (fl (u * c) * fl 0.5))))"
  defines "r \<equiv> (if d \<in> set [3, 7] then fl_mul fl w' (Num (fl (1 + c))) else w')"
  shows "js_nonneg r \<and> js_fixed fl r \<and> (js_pos w \<longrightarrow> js_pos r)"
proof -
  note f = creativity_factors[OF assms(1,2,3)]
  note a = mul_ge_one[OF assms(1) assms(4,5) f(1)]
  from a have w': "js_nonneg w'" "js_fixed fl w'" "js_pos w \<Longrightarrow> js_pos w'"
    unfolding w'_def by simp_all
  note b = mul_ge_one[OF assms(1) w'(1,2) f(2)]
  show ?thesis
    unfolding r_def using w' b by auto
qed

lemma creativityAdjust_good:
  assumes "rounding fl" "0 < c" "\<forall>j. 0 \<le> rnd j" "\<forall>w\<in>set (map snd ws). js_nonneg w \<and> js_fixed fl w"
  shows "\<forall>w\<in>set (map snd (creativityAdjust fl c rnd ws)). js_nonneg w \<and> js_fixed fl w"
    "\<exists>w\<in>set (map snd ws). js_pos w \<Longrightarrow> \<exists>w\<in>set (map snd (creativityAdjust fl c rnd ws)). js_pos w"
proof -
  let ?g = "\<lambda>j (d :: int) w.
              (if d \<in> set [3, 7]
               then fl_mul fl (fl_mul fl w (Num (fl (1 + fl (fl (rnd j * c) * fl 0.5))))) (Num (fl (1 + c)))
               else fl_mul fl w (Num (fl (1 + fl (fl (rnd j * c) * fl 0.5)))))"
  have adj: "creativityAdjust fl c rnd ws = map (\<lambda>(j, (d, w)). (d, ?g j d w)) (zip [0..<length ws] ws)"
    by (simp only: creativityAdjust_def Let_def)
  have one: "js_nonneg (?g j d w) \<and> js_fixed fl (?g j d w) \<and> (js_pos w \<longrightarrow> js_pos (?g j d w))"
    if "(d, w) \<in> set ws" for j d w
  proof -
    from that assms(4) have w: "js_nonneg w" "js_fixed fl w" by force+
    from assms(3) have u: "0 \<le> rnd j" by simp
    from creativity_step[OF assms(1,2) u w, of d] show ?thesis by simp
  qed
  show "\<forall>w\<in>set (map snd (creativityAdjust fl c rnd ws)). js_nonneg w \<and> js_fixed fl w"
  proof
    fix x assume "x \<in> set (map snd (creativityAdjust fl c rnd ws))"
    then obtain j d w where m: "(j, (d, w)) \<in> set (zip [0..<length ws] ws)" and x: "x = ?g j d w"
      unfolding adj by (auto simp del: set_simps)
    from m have "(d, w) \<in> set ws" by (rule set_zip_rightD)
    from one[OF this, of j] x show "js_nonneg x \<and> js_fixed fl x" by simp
  qed
  show "\<exists>w\<in>set (map snd (creativityAdjust fl c rnd ws)). js_pos w"
    if "\<exists>w\<in>set (map snd ws). js_pos w"
  proof -
    from that obtain d w where dw: "(d, w) \<in> set ws" "js_pos w" by auto
    then obtain j where j: "j < length ws" "ws ! j = (d, w)" by (auto simp: in_set_conv_nth)
    then have mem: "(j, (d, w)) \<in> set (zip [0..<length ws] ws)"
      unfolding in_set_zip by (intro exI[of _ j]) simp
    from one[OF dw(1), of j] dw(2) have "js_pos (?g j d w)" by simp
    moreover have "(d, ?g j d w) \<in> set (creativityAdjust fl c rnd ws)"
      unfolding adj using mem by (force simp del: set_simps)
    ultimately show ?thesis by force
  qed
qed

lemma selectionWeights_positive:
  assumes "rounding fl" "0 \<le> t" "t \<le> 1" "\<forall>j. 0 \<le> rnd j"
    and "baseWeights fl p s \<noteq> []"
  shows "js_pos (totalWeight fl (selectionWeights fl (Num t) p s c rnd))"
proof -
  let ?adj = "tensionAdjust fl (Num t) (baseWeights fl p s)"
  note base = baseWeights_good[OF assms(1), of p s]
  note adj = tensionAdjust_good[OF assms(1,2,3) baseWeights_keys base(1)]
  have adj_pos: "\<exists>w\<in>set (map snd ?adj). js_pos w"
    using adj(2) base(2)[OF assms(5)] by blast
  have good: "\<forall>w\<in>set (map snd (selectionWeights fl (Num t) p s c rnd)). js_nonneg w \<and> js_fixed fl w"
    using adj(1) creativityAdjust_good(1)[OF assms(1) _ assms(4) adj(1), of c]
    by (simp add: selectionWeights_def Let_def)
  have pos: "\<exists>w\<in>set (map snd (selectionWeights fl (Num t) p s c rnd)). js_pos w"
    using adj_pos creativityAdjust_good(2)[OF assms(1) _ assms(4) adj(1) adj_pos, of c]
    by (simp add: selectionWeights_def Let_def)
  have zero: "js_nonneg (Num 0) \<and> js_fixed fl (Num 0)"
    using assms(1) by (simp add: rounding_def)
  show ?thesis
    unfolding totalWeight_def by (rule total_pos[OF assms(1) zero good pos])
qed

lemma selectionWeights_zero_sum:
  assumes "rounding fl" "0 \<le> t" "t \<le> 1" "\<forall>j. 0 \<le> rnd j"
    and "totalWeight fl (selectionWeights fl (Num t) p s c rnd) = Num 0"
  shows "selectionWeights fl (Num t) p s c rnd = []"
proof -
  have "baseWeights fl p s = []"
  proof (rule ccontr)
    assume "baseWeights fl p s \<noteq> []"
    from selectionWeights_positive[OF assms(1,2,3,4) this, of c] assms(5) show False by simp
  qed
  then show ?thesis
    by (simp add: selectionWeights_def tensionAdjust_def creativityAdjust_def)
qed

subsection \<open>A tension that is not a number\<close>

lemma selectLoop_nan:
  "\<forall>w\<in>set (map snd ws). w = NaN \<Longrightarrow> selectLoop fl ws r = 1"
proof (induction fl ws r rule: selectLoop.induct)
  case (1 fl random)
  show ?case by simp
next
  case (2 fl degree weight rest random)
  from "2.prems" have w: "weight = NaN" by simp
  have "fl_sub fl random NaN = NaN" by (cases random) (simp_all add: fl_sub_def js_sub_def)
  with 2 w show ?case by (simp add: Let_def)
qed

lemma tensionAdjust_nan: "\<forall>w\<in>set (map snd (tensionAdjust fl NaN ws)). w = NaN"
proof -
  have "fl_mul fl w (fl_add fl (Num 1) (fl_mul fl (fl_sub fl (Num 1) (js_abs (fl_sub fl NaN c))) (Num 2))) = NaN"
    for w c
    by (cases w; cases c) (simp_all add: fl_mul_def fl_add_def fl_sub_def js_sub_def)
  then show ?thesis by (auto simp: tensionAdjust_def Let_def)
qed

lemma creativityAdjust_nan:
  assumes "\<forall>w\<in>set (map snd ws). w = NaN"
  shows "\<forall>w\<in>set (map snd (creativityAdjust fl c rnd ws)). w = NaN"
proof
  fix x assume "x \<in> set (map snd (creativityAdjust fl c rnd ws))"
  then obtain j d w where m: "(j, (d, w)) \<in> set (zip [0..<length ws] ws)"
    and x: "x = (if d \<in> set [3, 7]
                 then fl_mul fl (fl_mul fl w (Num (fl (1 + fl (fl (rnd j * c) * fl 0.5))))) (Num (fl (1 + c)))
                 else fl_mul fl w (Num (fl (1 + fl (fl (rnd j * c) * fl 0.5)))))"
    unfolding creativityAdjust_def Let_def by (auto simp del: set_simps)
  from m have "(d, w) \<in> set ws" by (rule set_zip_rightD)
  with assms have "w = NaN" by force
  with x show "x = NaN" by (simp add: fl_mul_def)
qed

lemma select_nan: "selectChordForTension fl NaN p s c rnd = 1"
proof -
  have "\<forall>w\<in>set (map snd (selectionWeights fl NaN p s c rnd)). w = NaN"
    using tensionAdjust_nan[of fl "baseWeights fl p s"]
      creativityAdjust_nan[OF tensionAdjust_nan[of fl "baseWeights fl p s"], of fl c rnd]
    by (simp add: selectionWeights_def Let_def)
  then show ?thesis
    by (simp add: selectChordForTension_def weightedSelect_def Let_def selectLoop_nan)
qed


text \<open>
  Claim C5. The weighted selection never fails, whatever the rounding: the empty weight
  object has sum zero and gives the tonic; for every weight object whose degrees are in
  1..7 and every draw the result is a degree in 1..7; \<open>selectChordForTension\<close> returns
  a degree in 1..7 for all its inputs, and the tonic when the target tension is
  \<open>NaN\<close>. For a target tension in \<open>[0, 1]\<close>, a creativity of at most 1 and draws
  in \<open>[0, 1)\<close>, either the weight sum is positive, or the weight object is empty, its
  sum is zero and the tonic is returned: a zero sum is always followed by the tonic.
  The second case needs a previous chord that is in neither table; with no previous
  chord or a previous chord in 1..7 the weight sum is positive.
\<close>

theorem weighted_selection_never_fails:
  "totalWeight fl [] = Num 0 \<and> weightedSelect fl [] u = 1
   \<and> ((\<forall>d\<in>set (map fst weights). 1 \<le> d \<and> d \<le> 7) \<longrightarrow>
        1 \<le> weightedSelect fl weights u \<and> weightedSelect fl weights u \<le> 7)
   \<and> 1 \<le> selectChordForTension fl targetTension previousChord secondPreviousChord creativity rnd
   \<and> selectChordForTension fl targetTension previousChord secondPreviousChord creativity rnd \<le> 7
   \<and> selectChordForTension fl NaN previousChord secondPreviousChord creativity rnd = 1
   \<and> (rounding fl \<and> 0 \<le> t \<and> t \<le> 1 \<and> creativity \<le> 1 \<and> (\<forall>j. 0 \<le> rnd j \<and> rnd j < 1)
      \<longrightarrow> js_pos (totalWeight fl (selectionWeights fl (Num t) previousChord secondPreviousChord creativity rnd))
        \<or> (selectionWeights fl (Num t) previousChord secondPreviousChord creativity rnd = []
           \<and> totalWeight fl (selectionWeights fl (Num t) previousChord secondPreviousChord creativity rnd) = Num 0
           \<and> selectChordForTension fl (Num t) previousChord secondPreviousChord creativity rnd = 1))
   \<and> (rounding fl \<and> 0 \<le> t \<and> t \<le> 1 \<and> creativity \<le> 1 \<and> (\<forall>j. 0 \<le> rnd j \<and> rnd j < 1)
        \<and> totalWeight fl (selectionWeights fl (Num t) previousChord secondPreviousChord creativity rnd) = Num 0
      \<longrightarrow> selectChordForTension fl (Num t) previousChord secondPreviousChord creativity rnd = 1)
   \<and> (rounding fl \<and> 0 \<le> t \<and> t \<le> 1 \<and> creativity \<le> 1 \<and> (\<forall>j. 0 \<le> rnd j \<and> rnd j < 1)
        \<and> (previousChord = None \<or> (\<exists>prev. previousChord = Some prev \<and> 1 \<le> prev \<and> prev \<le> 7))
      \<longrightarrow> js_pos (totalWeight fl (selectionWeights fl (Num t) previousChord secondPreviousChord creativity rnd)))"
proof -
  have a: "totalWeight fl [] = Num 0 \<and> weightedSelect fl [] u = 1"
    by (simp add: weightedSelect_def totalWeight_def)
  have b: "(\<forall>d\<in>set (map fst weights). 1 \<le> d \<and> d \<le> 7) \<longrightarrow>
             1 \<le> weightedSelect fl weights u \<and> weightedSelect fl weights u \<le> 7"
    using selectLoop_range by (simp add: weightedSelect_def)
  note c = select_range[of fl targetTension previousChord secondPreviousChord creativity rnd]
  note n = select_nan[of fl previousChord secondPreviousChord creativity rnd]
  have dich: "rounding fl \<and> 0 \<le> t \<and> t \<le> 1 \<and> creativity \<le> 1 \<and> (\<forall>j. 0 \<le> rnd j \<and> rnd j < 1)
      \<longrightarrow> js_pos (totalWeight fl (selectionWeights fl (Num t) previousChord secondPreviousChord creativity rnd))
        \<or> (selectionWeights fl (Num t) previousChord secondPreviousChord creativity rnd = []
           \<and> totalWeight fl (selectionWeights fl (Num t) previousChord secondPreviousChord creativity rnd) = Num 0
           \<and> selectChordForTension fl (Num t) previousChord secondPreviousChord creativity rnd = 1)"
  proof (intro impI, elim conjE)
    assume r: "rounding fl" "0 \<le> t" "t \<le> 1" and draws: "\<forall>j. 0 \<le> rnd j \<and> rnd j < 1"
    from draws have nn: "\<forall>j. 0 \<le> rnd j" by simp
    show "js_pos (totalWeight fl (selectionWeights fl (Num t) previousChord secondPreviousChord creativity rnd))
        \<or> (selectionWeights fl (Num t) previousChord secondPreviousChord creativity rnd = []
           \<and> totalWeight fl (selectionWeights fl (Num t) previousChord secondPreviousChord creativity rnd) = Num 0
           \<and> selectChordForTension fl (Num t) previousChord secondPreviousChord creativity rnd = 1)"
    proof (cases "baseWeights fl previousChord secondPreviousChord = []")
      case True
      then have "selectionWeights fl (Num t) previousChord secondPreviousChord creativity rnd = []"
        by (simp add: selectionWeights_def tensionAdjust_def creativityAdjust_def)
      then show ?thesis
        by (simp add: selectChordForTension_def weightedSelect_def totalWeight_def Let_def)
    next
      case False
      from selectionWeights_positive[OF r nn False] show ?thesis by blast
    qed
  qed
  have d: "rounding fl \<and> 0 \<le> t \<and> t \<le> 1 \<and> creativity \<le> 1 \<and> (\<forall>j. 0 \<le> rnd j \<and> rnd j < 1)
        \<and> totalWeight fl (selectionWeights fl (Num t) previousChord secondPreviousChord creativity rnd) = Num 0
      \<longrightarrow> selectChordForTension fl (Num t) previousChord secondPreviousChord creativity rnd = 1"
  proof (intro impI, elim conjE)
    assume "rounding fl" "0 \<le> t" "t \<le> 1" "\<forall>j. 0 \<le> rnd j \<and> rnd j < 1"
      and "totalWeight fl (selectionWeights fl (Num t) previousChord secondPreviousChord creativity rnd) = Num 0"
    then have "selectionWeights fl (Num t) previousChord secondPreviousChord creativity rnd = []"
      by (intro selectionWeights_zero_sum) auto
    then show "selectChordForTension fl (Num t) previousChord secondPreviousChord creativity rnd = 1"
      by (simp add: selectChordForTension_def weightedSelect_def Let_def)
  qed
  have e: "rounding fl \<and> 0 \<le> t \<and> t \<le> 1 \<and> creativity \<le> 1 \<and> (\<forall>j. 0 \<le> rnd j \<and> rnd j < 1)
        \<and> (previousChord = None \<or> (\<exists>prev. previousChord = Some prev \<and> 1 \<le> prev \<and> prev \<le> 7))
      \<longrightarrow> js_pos (totalWeight fl (selectionWeights fl (Num t) previousChord secondPreviousChord creativity rnd))"
  proof (intro impI, elim conjE)
    assume r: "rounding fl" "0 \<le> t" "t \<le> 1" and draws: "\<forall>j. 0 \<le> rnd j \<and> rnd j < 1"
      and prev: "previousChord = None \<or> (\<exists>prev. previousChord = Some prev \<and> 1 \<le> prev \<and> prev \<le> 7)"
    from draws have nn: "\<forall>j. 0 \<le> rnd j" by simp
    from selectionWeights_positive[OF r nn baseWeights_nonempty[OF prev]]
    show "js_pos (totalWeight fl (selectionWeights fl (Num t) previousChord secondPreviousChord creativity rnd))" .
  qed
  from a b c n dich d e show ?thesis by blast
qed

theorem weighted_selection_never_fails_witness:
  "rounding (\<lambda>x. x)
   \<and> weightedSelect (\<lambda>x. x) [] (1 / 2) = 1
   \<and> weightedSelect (\<lambda>x. x) [(1, Num (1 / 2)), (5, Num (1 / 2))] (3 / 4) = 5
   \<and> 1 \<le> weightedSelect (\<lambda>x. x) [(1, Num (1 / 2)), (5, Num (1 / 2))] (3 / 4)
   \<and> weightedSelect (\<lambda>x. x) [(1, Num (1 / 2)), (5, Num (1 / 2))] (3 / 4) \<le> 7
   \<and> selectChordForTension (\<lambda>x. x) NaN (Some 5) (Some 1) (1 / 2) (\<lambda>_. 1 / 2) = 1
   \<and> totalWeight (\<lambda>x. x) (selectionWeights (\<lambda>x. x) (Num (1 / 2)) (Some 9) None (1 / 2) (\<lambda>_. 1 / 2)) = Num 0
   \<and> selectChordForTension (\<lambda>x. x) (Num (1 / 2)) (Some 9) None (1 / 2) (\<lambda>_. 1 / 2) = 1
   \<and> js_pos (totalWeight (\<lambda>x. x)
        (selectionWeights (\<lambda>x. x) (Num (1 / 2)) (Some 5) (Some 1) (1 / 2) (\<lambda>_. 1 / 2)))"
proof -
  have r: "rounding (\<lambda>x. x)" by (simp add: rounding_def)
  have z: "totalWeight (\<lambda>x. x) (selectionWeights (\<lambda>x. x) (Num (1 / 2)) (Some 9) None (1 / 2) (\<lambda>_. 1 / 2)) = Num 0"
    by (simp add: totalWeight_def selectionWeights_def baseWeights_def tensionAdjust_def
          creativityAdjust_def MARKOV_1ST_ORDER_def obj_literal_def)
  have five: "weightedSelect (\<lambda>x. x) [(1, Num (1 / 2)), (5, Num (1 / 2))] (3 / 4) = 5"
    by (simp add: weightedSelect_def totalWeight_def fl_add_def fl_sub_def fl_mul_def js_sub_def)
  show ?thesis
    using r z five
      weighted_selection_never_fails[where fl = "\<lambda>x. x" and u = "1 / 2"
        and weights = "[(1, Num (1 / 2)), (5, Num (1 / 2))]" and targetTension = NaN
        and previousChord = "Some 9" and secondPreviousChord = None and creativity = "1 / 2"
        and rnd = "\<lambda>_. 1 / 2" and t = "1 / 2"]
      weighted_selection_never_fails[where fl = "\<lambda>x. x" and u = "3 / 4"
        and weights = "[(1, Num (1 / 2)), (5, Num (1 / 2))]" and targetTension = NaN
        and previousChord = "Some 5" and secondPreviousChord = "Some 1" and creativity = "1 / 2"
        and rnd = "\<lambda>_. 1 / 2" and t = "1 / 2"]
    by simp
qed

subsection \<open>Falling through with positive weights\<close>

text \<open>
  The tonic fallback does not need a zero sum: where rounding leaves the scaled draw
  above the running subtractions the loop falls through with positive weights. A coarse
  rounding (upwards to an integer above 1) shows it in the model.
\<close>

lemma coarse_rounding: "rounding (\<lambda>x. if x \<le> 1 then x else of_int \<lceil>x\<rceil>)"
proof -
  have mono: "(if x \<le> 1 then x else of_int \<lceil>x\<rceil>) \<le> (if y \<le> 1 then y else of_int \<lceil>y\<rceil>)"
    if "x \<le> y" for x y :: real
  proof (cases "y \<le> 1")
    case True
    with that show ?thesis by simp
  next
    case False
    have "x \<le> of_int \<lceil>y\<rceil>" using that by linarith
    moreover have "of_int \<lceil>x\<rceil> \<le> (of_int \<lceil>y\<rceil> :: real)" using that by (simp add: ceiling_mono)
    ultimately show ?thesis using False by simp
  qed
  have idem: "(if (if x \<le> 1 then x else of_int \<lceil>x\<rceil>) \<le> 1 then (if x \<le> 1 then x else of_int \<lceil>x\<rceil>)
               else of_int \<lceil>if x \<le> 1 then x else of_int \<lceil>x\<rceil>\<rceil>)
              = (if x \<le> 1 then x else of_int \<lceil>x\<rceil>)" for x :: real
    by simp
  show ?thesis
    unfolding rounding_def using mono idem by simp
qed

lemma fallthrough_with_positive_weights:
  "weightedSelect (\<lambda>x. if x \<le> 1 then x else of_int \<lceil>x\<rceil>) [(5, Num (3 / 4)), (6, Num (3 / 4))] (9 / 10) = 1"
  by (simp add: weightedSelect_def totalWeight_def fl_add_def fl_sub_def fl_mul_def js_sub_def)

subsection \<open>Cadence post-pass\<close>

lemma findIndex_Some:
  "findIndex P xs = Some j \<Longrightarrow> j < length xs \<and> P (xs ! j) \<and> (\<forall>i<j. \<not> P (xs ! i))"
proof (induction xs arbitrary: j)
  case Nil
  then show ?case by simp
next
  case (Cons x xs)
  show ?case
  proof (cases "P x")
    case True
    with Cons.prems show ?thesis by simp
  next
    case False
    with Cons.prems obtain j' where j': "findIndex P xs = Some j'" "j = Suc j'"
      by (auto split: option.splits)
    from Cons.IH[OF j'(1)] False j'(2) show ?thesis
      by (auto simp: nth_Cons split: nat.splits)
  qed
qed

lemma lastFilledIndex_Some:
  assumes "lastFilledIndex result = Some k"
  shows "k < length result \<and> GenerativeSlot.degree (result ! k) \<noteq> None
       \<and> (\<forall>i. k < i \<and> i < length result \<longrightarrow> GenerativeSlot.degree (result ! i) = None)"
proof -
  from assms obtain j where j: "findIndex (\<lambda>s. GenerativeSlot.degree s \<noteq> None) (rev result) = Some j"
    and k: "k = length result - 1 - j"
    by (auto simp: lastFilledIndex_def split: option.splits)
  from findIndex_Some[OF j]
  have jl: "j < length result" and pj: "GenerativeSlot.degree (rev result ! j) \<noteq> None"
    and before: "\<forall>i<j. GenerativeSlot.degree (rev result ! i) = None"
    by auto
  have kl: "k < length result" using jl k by simp
  have "rev result ! j = result ! k" using jl k by (simp add: rev_nth)
  with pj have pk: "GenerativeSlot.degree (result ! k) \<noteq> None" by simp
  have after: "GenerativeSlot.degree (result ! i) = None" if "k < i" "i < length result" for i
  proof -
    let ?i' = "length result - 1 - i"
    have "?i' < j" using that k jl by linarith
    with before have "GenerativeSlot.degree (rev result ! ?i') = None" by simp
    moreover have "rev result ! ?i' = result ! i" using that by (simp add: rev_nth)
    ultimately show ?thesis by simp
  qed
  from kl pk after show ?thesis by blast
qed

text \<open>
  Claim C4. The cadence post-pass keeps the length of the progression, and every slot is
  either unchanged or is the final non-rest slot (no slot after it has a degree), holds
  a degree that is neither I nor V, and has only its degree field replaced, by I, which
  happens exactly when the draw is below 0.6. With a draw of 0.6 or more, with no
  non-rest slot, or with a final non-rest slot on I or V, nothing changes.
\<close>

theorem cadence_post_pass_frame:
  "length (cadencePostPass result u) = length result
   \<and> (\<forall>i<length result.
         cadencePostPass result u ! i = result ! i
       \<or> (lastFilledIndex result = Some i
          \<and> GenerativeSlot.degree (result ! i) \<noteq> None
          \<and> (\<forall>j. i < j \<and> j < length result \<longrightarrow> GenerativeSlot.degree (result ! j) = None)
          \<and> GenerativeSlot.degree (result ! i) \<noteq> Some 1
          \<and> GenerativeSlot.degree (result ! i) \<noteq> Some 5
          \<and> u < 0.6
          \<and> cadencePostPass result u ! i = (result ! i)\<lparr>GenerativeSlot.degree := Some 1\<rparr>))
   \<and> (\<forall>k. lastFilledIndex result = Some k
          \<and> GenerativeSlot.degree (result ! k) \<noteq> Some 1
          \<and> GenerativeSlot.degree (result ! k) \<noteq> Some 5
          \<and> u < 0.6
        \<longrightarrow> cadencePostPass result u = result[k := (result ! k)\<lparr>GenerativeSlot.degree := Some 1\<rparr>])
   \<and> (0.6 \<le> u \<longrightarrow> cadencePostPass result u = result)"
proof -
  have len: "length (cadencePostPass result u) = length result"
    by (simp add: cadencePostPass_def Let_def split: option.splits)
  have frame: "cadencePostPass result u ! i = result ! i
       \<or> (lastFilledIndex result = Some i
          \<and> GenerativeSlot.degree (result ! i) \<noteq> None
          \<and> (\<forall>j. i < j \<and> j < length result \<longrightarrow> GenerativeSlot.degree (result ! j) = None)
          \<and> GenerativeSlot.degree (result ! i) \<noteq> Some 1
          \<and> GenerativeSlot.degree (result ! i) \<noteq> Some 5
          \<and> u < 0.6
          \<and> cadencePostPass result u ! i = (result ! i)\<lparr>GenerativeSlot.degree := Some 1\<rparr>)"
    if "i < length result" for i
  proof (cases "lastFilledIndex result")
    case None
    then show ?thesis by (simp add: cadencePostPass_def)
  next
    case (Some k)
    note facts = lastFilledIndex_Some[OF Some]
    show ?thesis
    proof (cases "i = k")
      case True
      with Some facts that show ?thesis
        by (simp add: cadencePostPass_def Let_def)
    next
      case False
      with Some show ?thesis
        by (simp add: cadencePostPass_def Let_def)
    qed
  qed
  have change: "cadencePostPass result u = result[k := (result ! k)\<lparr>GenerativeSlot.degree := Some 1\<rparr>]"
    if "lastFilledIndex result = Some k" "GenerativeSlot.degree (result ! k) \<noteq> Some 1"
       "GenerativeSlot.degree (result ! k) \<noteq> Some 5" "u < 0.6" for k
    using that by (simp add: cadencePostPass_def Let_def)
  have keep: "0.6 \<le> u \<longrightarrow> cadencePostPass result u = result"
    by (simp add: cadencePostPass_def Let_def split: option.splits)
  from len frame change keep show ?thesis by blast
qed

theorem cadence_post_pass_frame_witness:
  "lastFilledIndex
      [\<lparr>position = 0, GenerativeSlot.degree = Some 2, velocity = 0.85, duration = 2,
         tension = Num 0.4, swing = 0, stagger = 0.3\<rparr>,
       \<lparr>position = 1, GenerativeSlot.degree = None, velocity = 0, duration = 1,
         tension = Num 0.5, swing = 0, stagger = 0\<rparr>] = Some 0
   \<and> (1 / 2 :: real) < 0.6
   \<and> cadencePostPass
      [\<lparr>position = 0, GenerativeSlot.degree = Some 2, velocity = 0.85, duration = 2,
         tension = Num 0.4, swing = 0, stagger = 0.3\<rparr>,
       \<lparr>position = 1, GenerativeSlot.degree = None, velocity = 0, duration = 1,
         tension = Num 0.5, swing = 0, stagger = 0\<rparr>] (1 / 2)
     = [\<lparr>position = 0, GenerativeSlot.degree = Some 1, velocity = 0.85, duration = 2,
         tension = Num 0.4, swing = 0, stagger = 0.3\<rparr>,
       \<lparr>position = 1, GenerativeSlot.degree = None, velocity = 0, duration = 1,
         tension = Num 0.5, swing = 0, stagger = 0\<rparr>]
   \<and> (0.6 :: real) \<le> 7 / 10
   \<and> cadencePostPass
      [\<lparr>position = 0, GenerativeSlot.degree = Some 2, velocity = 0.85, duration = 2,
         tension = Num 0.4, swing = 0, stagger = 0.3\<rparr>,
       \<lparr>position = 1, GenerativeSlot.degree = None, velocity = 0, duration = 1,
         tension = Num 0.5, swing = 0, stagger = 0\<rparr>] (7 / 10)
     = [\<lparr>position = 0, GenerativeSlot.degree = Some 2, velocity = 0.85, duration = 2,
         tension = Num 0.4, swing = 0, stagger = 0.3\<rparr>,
       \<lparr>position = 1, GenerativeSlot.degree = None, velocity = 0, duration = 1,
         tension = Num 0.5, swing = 0, stagger = 0\<rparr>]"
  using cadence_post_pass_frame[of "[\<lparr>position = 0, GenerativeSlot.degree = Some 2, velocity = 0.85, duration = 2,
         tension = Num 0.4, swing = 0, stagger = 0.3\<rparr>,
       \<lparr>position = 1, GenerativeSlot.degree = None, velocity = 0, duration = 1,
         tension = Num 0.5, swing = 0, stagger = 0\<rparr>]" "1 / 2"]
    cadence_post_pass_frame[of "[\<lparr>position = 0, GenerativeSlot.degree = Some 2, velocity = 0.85, duration = 2,
         tension = Num 0.4, swing = 0, stagger = 0.3\<rparr>,
       \<lparr>position = 1, GenerativeSlot.degree = None, velocity = 0, duration = 1,
         tension = Num 0.5, swing = 0, stagger = 0\<rparr>]" "7 / 10"]
  by (simp add: lastFilledIndex_def)

section \<open>Properties of the suggestion engine\<close>

subsection \<open>Circle-of-fifths bonus\<close>

text \<open>
  Claim C2, as amended. The four rules of the circle-of-fifths bonus are exclusive and
  tried in the order fifth up, fourth up, step, tonic: a move to the tonic (degree 0)
  that is a fifth up earns 0.15, a fourth up 0.12, a step 0.08, and only a move to the
  tonic that is none of these earns the 0.10 of the tonic rule. The bonus is always one
  of the five constants, never a sum of two.
\<close>

theorem fifths_bonus_exclusive:
  "(js_rem (0 - from + 7) 7 = 4 \<longrightarrow> getCircleOfFifthsBonus from 0 = 0.15)
   \<and> (js_rem (0 - from + 7) 7 = 3 \<longrightarrow> getCircleOfFifthsBonus from 0 = 0.12)
   \<and> (\<bar>0 - from\<bar> = 1 \<longrightarrow> getCircleOfFifthsBonus from 0 = 0.08)
   \<and> (js_rem (0 - from + 7) 7 \<noteq> 4 \<and> js_rem (0 - from + 7) 7 \<noteq> 3 \<and> \<bar>0 - from\<bar> \<noteq> 1 \<longrightarrow>
        getCircleOfFifthsBonus from 0 = 0.10)
   \<and> getCircleOfFifthsBonus from to \<in> {0.15, 0.12, 0.08, 0.10, 0}"
proof -
  have step: "\<bar>0 - from\<bar> = 1 \<Longrightarrow> js_rem (0 - from + 7) 7 \<noteq> 4 \<and> js_rem (0 - from + 7) 7 \<noteq> 3"
  proof -
    assume "\<bar>0 - from\<bar> = 1"
    then have "from = 1 \<or> from = - 1" by arith
    then show ?thesis by (auto simp: js_rem_def)
  qed
  show ?thesis
    using step by (auto simp: getCircleOfFifthsBonus_def)
qed

theorem fifths_bonus_exclusive_witness:
  "js_rem (0 - 3 + 7) 7 = 4 \<and> getCircleOfFifthsBonus 3 0 = 0.15
   \<and> js_rem (0 - 4 + 7) 7 = 3 \<and> getCircleOfFifthsBonus 4 0 = 0.12
   \<and> \<bar>0 - 1 :: int\<bar> = 1 \<and> getCircleOfFifthsBonus 1 0 = 0.08
   \<and> js_rem (0 - 2 + 7) 7 \<noteq> 4 \<and> js_rem (0 - 2 + 7) 7 \<noteq> 3 \<and> \<bar>0 - 2 :: int\<bar> \<noteq> 1
   \<and> getCircleOfFifthsBonus 2 0 = 0.10"
  using fifths_bonus_exclusive[of 3] fifths_bonus_exclusive[of 4] fifths_bonus_exclusive[of 1]
    fifths_bonus_exclusive[of 2]
  by (simp add: js_rem_def)

text \<open>
  Claim C2 as stated fails: IV \<open>\<rightarrow>\<close> I is a fifth up to the tonic and earns 0.15, not
  0.25; V \<open>\<rightarrow>\<close> I is a fourth up and earns 0.12, not 0.22; ii \<open>\<rightarrow>\<close> I is a step and earns
  0.08, not 0.18.
\<close>

theorem fifths_bonus_tonic_not_stacked:
  "js_rem (0 - 3 + 7) 7 = 4 \<and> getCircleOfFifthsBonus 3 0 = 0.15
   \<and> getCircleOfFifthsBonus 3 0 \<noteq> 0.15 + 0.10
   \<and> js_rem (0 - 4 + 7) 7 = 3 \<and> getCircleOfFifthsBonus 4 0 = 0.12
   \<and> getCircleOfFifthsBonus 4 0 \<noteq> 0.12 + 0.10
   \<and> \<bar>0 - 1 :: int\<bar> = 1 \<and> getCircleOfFifthsBonus 1 0 = 0.08
   \<and> getCircleOfFifthsBonus 1 0 \<noteq> 0.08 + 0.10"
  by (simp add: getCircleOfFifthsBonus_def js_rem_def)

subsection \<open>Scores are positive\<close>

lemma common_nonneg: "\<forall>(k, row)\<in>set COMMON_PROGRESSIONS. \<forall>(d, p)\<in>set row. 0 \<le> p"
  by (simp add: COMMON_PROGRESSIONS_def)

lemma second_nonneg: "\<forall>(k, row)\<in>set SECOND_ORDER_PATTERNS. \<forall>(d, p)\<in>set row. 0 \<le> p"
  by (simp add: SECOND_ORDER_PATTERNS_def)

lemma lookupOr_pos:
  assumes "\<forall>(k, row)\<in>set table. \<forall>(d, p)\<in>set row. 0 \<le> p" "0 < fallback"
  shows "0 < lookupOr table key' d fallback"
proof (cases "map_of table key'")
  case None
  with assms(2) show ?thesis by (simp add: lookupOr_def)
next
  case (Some row)
  then have row: "(key', row) \<in> set table" by (rule map_of_SomeD)
  show ?thesis
  proof (cases "map_of row d")
    case None
    with Some assms(2) show ?thesis by (simp add: lookupOr_def)
  next
    case (Some p)
    then have "(d, p) \<in> set row" by (rule map_of_SomeD)
    with row assms(1) have "0 \<le> p" by fastforce
    with Some \<open>map_of table key' = Some row\<close> assms(2) show ?thesis
      by (simp add: lookupOr_def)
  qed
qed

lemma fifths_nonneg: "0 \<le> getCircleOfFifthsBonus from to"
  by (simp add: getCircleOfFifthsBonus_def)

lemma function_nonneg: "0 \<le> getFunctionalHarmonyBonus from to"
  by (simp add: getFunctionalHarmonyBonus_def)

lemma scoreDegree_pos: "0 < score (scoreDegree lastChord secondLastChord d)"
proof -
  have m1: "0 < lookupOr COMMON_PROGRESSIONS (ChordHistory.degree lastChord) d 0.01"
    by (rule lookupOr_pos[OF common_nonneg]) simp
  have m2: "0 < lookupOr SECOND_ORDER_PATTERNS p d 0.01" for p
    by (rule lookupOr_pos[OF second_nonneg]) simp
  show ?thesis
  proof (cases secondLastChord)
    case None
    with m1 fifths_nonneg[of "ChordHistory.degree lastChord" d]
      function_nonneg[of "ChordHistory.degree lastChord" d]
    show ?thesis
      by (simp add: scoreDegree_def Let_def add_pos_nonneg)
  next
    case (Some second)
    with m1 m2[of "(ChordHistory.degree second, ChordHistory.degree lastChord)"]
      fifths_nonneg[of "ChordHistory.degree lastChord" d]
      function_nonneg[of "ChordHistory.degree lastChord" d]
    show ?thesis
      by (simp add: scoreDegree_def Let_def add_pos_nonneg add_pos_pos)
  qed
qed

lemma creativityBoost_pos: "0 \<le> u \<Longrightarrow> 0 < score e \<Longrightarrow> 0 < score (creativityBoost u d e)"
  by (simp add: creativityBoost_def Let_def add_pos_nonneg add_pos_pos)


subsection \<open>Normalisation\<close>

lemma scores_explicit:
  "foldl (\<lambda>scores d. obj_set d (f d) scores) [] [0, 1, 2, 3, 4, 5, 6]
     = [(0, f 0), (1, f 1), (2, f 2), (3, f 3), (4, f 4), (5, f 5), (6, f 6)]"
  by simp

lemma finalScores_explicit:
  "finalScores history rnd =
     (let lastChord = history ! (length history - 1);
          secondLastChord = (if length history > 1 then Some (history ! (length history - 2)) else None)
      in [(0, creativityBoost (rnd 0) 0 (scoreDegree lastChord secondLastChord 0)),
          (1, creativityBoost (rnd 1) 1 (scoreDegree lastChord secondLastChord 1)),
          (2, creativityBoost (rnd 2) 2 (scoreDegree lastChord secondLastChord 2)),
          (3, creativityBoost (rnd 3) 3 (scoreDegree lastChord secondLastChord 3)),
          (4, creativityBoost (rnd 4) 4 (scoreDegree lastChord secondLastChord 4)),
          (5, creativityBoost (rnd 5) 5 (scoreDegree lastChord secondLastChord 5)),
          (6, creativityBoost (rnd 6) 6 (scoreDegree lastChord secondLastChord 6))])"
  unfolding finalScores_def addCreativityBonus_def Let_def scores_explicit
  by (simp add: eval_nat_numeral)

lemma finalScores_keys: "map fst (finalScores history rnd) = [0, 1, 2, 3, 4, 5, 6]"
  by (simp add: finalScores_explicit Let_def)

lemma finalScores_pos:
  assumes "\<forall>j. 0 \<le> rnd j"
  shows "\<forall>e\<in>set (map snd (finalScores history rnd)). 0 < score e"
  using assms by (simp add: finalScores_explicit Let_def creativityBoost_pos scoreDegree_pos)

lemma foldl_score_sum:
  "foldl (\<lambda>sum s. sum + score s) a es = a + sum_list (map score es)"
  by (induction es arbitrary: a) simp_all

lemma sum_list_pos_real:
  fixes xs :: "real list"
  shows "xs \<noteq> [] \<Longrightarrow> \<forall>x\<in>set xs. 0 < x \<Longrightarrow> 0 < sum_list xs"
  by (induction xs) (auto simp: add_pos_nonneg sum_list_nonneg less_imp_le)

lemma sum_list_sortByProbability:
  "sum_list (map probability (sortByProbability xs)) = sum_list (map probability xs)"
proof -
  have "mset (map probability (sortByProbability xs)) = mset (map probability xs)"
    by (simp add: sortByProbability_def)
  then have "sum_mset (mset (map probability (sortByProbability xs))) = sum_mset (mset (map probability xs))"
    by simp
  then show ?thesis by (simp only: sum_mset_sum_list)
qed

lemma sum_list_divide:
  fixes t :: real
  shows "sum_list (map (\<lambda>x. f x / t) xs) = sum_list (map f xs) / t"
  by (induction xs) (simp_all add: add_divide_distrib)

text \<open>
  Claim C3. For a non-empty history and draws in \<open>[0, 1)\<close>, the probabilities of the
  seven ranked suggestions sum to 1 (exactly, in real arithmetic); the function returns
  the first four of them, and the category of each is fixed by its probability: strong
  above 0.3, moderate above 0.15 and up to 0.3, adventurous otherwise.
\<close>

theorem probabilities_sum_to_one:
  assumes "history \<noteq> []" "\<forall>j. 0 \<le> rnd j \<and> rnd j < 1"
  shows "length (rankedSuggestions history rnd) = 7
       \<and> sum_list (map probability (rankedSuggestions history rnd)) = 1
       \<and> suggestNextChords history shuffle rnd = take 4 (rankedSuggestions history rnd)
       \<and> (\<forall>s\<in>set (suggestNextChords history shuffle rnd).
             category s = (if probability s > 0.3 then strong
                           else if probability s > 0.15 then moderate
                           else adventurous))"
proof -
  define scores where "scores = finalScores history rnd"
  define total where "total = foldl (\<lambda>sum s. sum + score s) 0 (map snd scores)"
  define mk where "mk = (\<lambda>(d :: int, data :: ScoreEntry).
                   (let prob = score data / total;
                        joined = join '', '' (reasons data)
                    in \<lparr>degree = d,
                        probability = prob,
                        reason = (if joined = [] then ''Possible choice'' else joined),
                        category = (if prob > 0.3 then strong
                                    else if prob > 0.15 then moderate
                                    else adventurous)\<rparr>))"
  have ranked: "rankedSuggestions history rnd = sortByProbability (map mk scores)"
    by (simp add: rankedSuggestions_def scores_def total_def mk_def Let_def)
  have "length (map fst scores) = 7"
    unfolding scores_def finalScores_keys by simp
  then have len7: "length scores = 7" by simp
  have len: "length (rankedSuggestions history rnd) = 7"
    by (simp add: ranked sortByProbability_def len7)
  have tot: "total = sum_list (map score (map snd scores))"
    by (simp add: total_def foldl_score_sum)
  have "map snd scores \<noteq> []" using len7 by auto
  moreover have "\<forall>x\<in>set (map score (map snd scores)). 0 < x"
    using finalScores_pos[of rnd history] assms(2) by (simp add: scores_def)
  ultimately have pos: "0 < total"
    unfolding tot by (intro sum_list_pos_real) simp_all
  have probs: "map probability (map mk scores) = map (\<lambda>x. score (snd x) / total) scores"
    by (simp add: mk_def Let_def case_prod_beta)
  have "sum_list (map probability (rankedSuggestions history rnd))
          = sum_list (map (\<lambda>x. score (snd x) / total) scores)"
    by (simp only: ranked sum_list_sortByProbability probs)
  also have "\<dots> = sum_list (map (\<lambda>x. score (snd x)) scores) / total"
    by (rule sum_list_divide)
  also have "sum_list (map (\<lambda>x. score (snd x)) scores) = total"
    by (simp add: tot comp_def)
  finally have one: "sum_list (map probability (rankedSuggestions history rnd)) = 1"
    using pos by simp
  have top4: "suggestNextChords history shuffle rnd = take 4 (rankedSuggestions history rnd)"
    using assms(1) by (simp add: suggestNextChords_def)
  have cat: "category s = (if probability s > 0.3 then strong
                           else if probability s > 0.15 then moderate
                           else adventurous)"
    if "s \<in> set (suggestNextChords history shuffle rnd)" for s
  proof -
    from that have "s \<in> set (rankedSuggestions history rnd)"
      unfolding top4 by (rule in_set_takeD)
    then have "s \<in> set (map mk scores)"
      by (simp add: ranked sortByProbability_def)
    then obtain d data where "s = mk (d, data)" by auto
    then show ?thesis by (simp add: mk_def Let_def)
  qed
  from len one top4 cat show ?thesis by blast
qed


theorem probabilities_sum_to_one_witness:
  "[\<lparr>ChordHistory.degree = 4, timestamp = 0\<rparr>] \<noteq> []
   \<and> (\<forall>j :: nat. (0 :: real) \<le> 1 / 2 \<and> (1 / 2 :: real) < 1)
   \<and> length (rankedSuggestions [\<lparr>ChordHistory.degree = 4, timestamp = 0\<rparr>] (\<lambda>_. 1 / 2)) = 7
   \<and> sum_list (map probability
         (rankedSuggestions [\<lparr>ChordHistory.degree = 4, timestamp = 0\<rparr>] (\<lambda>_. 1 / 2))) = 1
   \<and> list_all (\<lambda>s. category s = (if probability s > 0.3 then strong
                                   else if probability s > 0.15 then moderate
                                   else adventurous))
        (suggestNextChords [\<lparr>ChordHistory.degree = 4, timestamp = 0\<rparr>] id (\<lambda>_. 1 / 2))"
  using probabilities_sum_to_one[of "[\<lparr>ChordHistory.degree = 4, timestamp = 0\<rparr>]" "\<lambda>_. 1 / 2" id]
  by (simp add: list_all_iff)

subsection \<open>Empty history\<close>

lemma startOptions_length: "length startOptions = 5"
  by (simp add: startOptions_def)

lemma startOptions_distinct: "distinct startOptions"
  by (simp add: startOptions_def)

lemma shuffled_facts:
  assumes "mset xs = mset startOptions"
  shows "length xs = 5" "set xs = set startOptions" "distinct xs"
proof -
  from assms have "size (mset xs) = size (mset startOptions)" by simp
  then show "length xs = 5" by (simp add: startOptions_length)
  from assms show "set xs = set startOptions" by (rule mset_eq_setD)
  from mset_eq_imp_distinct_iff[OF assms] startOptions_distinct show "distinct xs" by simp
qed

text \<open>
  Claim C6. On an empty history, whatever rearrangement of the starter list the random
  sort produces, the function returns exactly three distinct entries of the starter
  list (I 35%, V 25%, IV 20%, vi 12%, ii 8%), each with the probability, reason and
  category it has there.
\<close>

theorem empty_history_three_starters:
  assumes "mset (shuffle startOptions) = mset startOptions"
  shows "length (suggestNextChords [] shuffle rnd) = 3
       \<and> set (suggestNextChords [] shuffle rnd) \<subseteq> set startOptions
       \<and> distinct (suggestNextChords [] shuffle rnd)
       \<and> map (\<lambda>s. (ChordSuggestion.degree s, probability s, category s)) startOptions
           = [(0, 0.35, strong), (4, 0.25, strong), (3, 0.20, moderate), (5, 0.12, moderate),
              (1, 0.08, adventurous)]"
proof -
  have starters: "map (\<lambda>s. (ChordSuggestion.degree s, probability s, category s)) startOptions
           = [(0, 0.35, strong), (4, 0.25, strong), (3, 0.20, moderate), (5, 0.12, moderate),
              (1, 0.08, adventurous)]"
    by (simp add: startOptions_def)
  note f = shuffled_facts[OF assms]
  have eq: "suggestNextChords [] shuffle rnd = sortByProbability (take 3 (shuffle startOptions))"
    by (simp add: suggestNextChords_def)
  have "length (suggestNextChords [] shuffle rnd) = 3"
    by (simp add: eq sortByProbability_def f(1))
  moreover have "set (suggestNextChords [] shuffle rnd) \<subseteq> set startOptions"
    using set_take_subset[of 3 "shuffle startOptions"] by (simp add: eq sortByProbability_def f(2))
  moreover have "distinct (suggestNextChords [] shuffle rnd)"
    by (simp add: eq sortByProbability_def f(3))
  ultimately show ?thesis using starters by blast
qed

theorem empty_history_three_starters_witness:
  "mset (rev startOptions) = mset startOptions
   \<and> length (suggestNextChords [] rev (\<lambda>_. 1 / 2)) = 3
   \<and> set (suggestNextChords [] rev (\<lambda>_. 1 / 2)) \<subseteq> set startOptions
   \<and> map ChordSuggestion.degree (suggestNextChords [] rev (\<lambda>_. 1 / 2)) = [3, 5, 1]"
proof -
  have "map ChordSuggestion.degree (suggestNextChords [] rev (\<lambda>_. 1 / 2)) = [3, 5, 1]"
    by (simp add: suggestNextChords_def startOptions_def sortByProbability_def)
  then show ?thesis
    using empty_history_three_starters[of rev "\<lambda>_. 1 / 2"] by simp
qed

subsection \<open>Degree encodings\<close>

lemma ranked_degrees:
  "mset (map ChordSuggestion.degree (rankedSuggestions history rnd)) = mset [0, 1, 2, 3, 4, 5, 6]"
proof -
  define scores where "scores = finalScores history rnd"
  define total where "total = foldl (\<lambda>sum s. sum + score s) 0 (map snd scores)"
  define mk where "mk = (\<lambda>(d :: int, data :: ScoreEntry).
                   (let prob = score data / total;
                        joined = join '', '' (reasons data)
                    in \<lparr>degree = d,
                        probability = prob,
                        reason = (if joined = [] then ''Possible choice'' else joined),
                        category = (if prob > 0.3 then strong
                                    else if prob > 0.15 then moderate
                                    else adventurous)\<rparr>))"
  have ranked: "rankedSuggestions history rnd = sortByProbability (map mk scores)"
    by (simp add: rankedSuggestions_def scores_def total_def mk_def Let_def)
  have deg: "map ChordSuggestion.degree (map mk scores) = map fst scores"
    by (simp add: mk_def Let_def case_prod_beta)
  have "mset (map ChordSuggestion.degree (rankedSuggestions history rnd))
          = image_mset ChordSuggestion.degree (mset (sortByProbability (map mk scores)))"
    by (simp only: ranked mset_map)
  also have "\<dots> = image_mset ChordSuggestion.degree (mset (map mk scores))"
    by (simp only: sortByProbability_def mset_sort)
  also have "\<dots> = mset (map ChordSuggestion.degree (map mk scores))"
    by (simp only: mset_map)
  also have "\<dots> = mset (map fst scores)" by (simp only: deg)
  finally show ?thesis
    unfolding scores_def finalScores_keys .
qed

lemma ranked_length: "length (rankedSuggestions history rnd) = 7"
proof -
  have "size (mset (map ChordSuggestion.degree (rankedSuggestions history rnd))) = 7"
    unfolding ranked_degrees by simp
  then show ?thesis by simp
qed

lemma ranked_distinct: "distinct (map ChordSuggestion.degree (rankedSuggestions history rnd))"
proof -
  have "distinct [0 :: int, 1, 2, 3, 4, 5, 6]" by simp
  with mset_eq_imp_distinct_iff[OF ranked_degrees[of history rnd]] show ?thesis by simp
qed

lemma getNoteIndex_range: "0 \<le> getNoteIndex key \<and> getNoteIndex key \<le> 11"
  by (cases key) (simp_all add: getNoteIndex_def NOTES_def)

lemma js_rem_nonneg: "0 \<le> x \<Longrightarrow> js_rem x 12 = x mod 12"
  by (cases "x = 0") (simp_all add: js_rem_def)

lemma pitch_of_semitones: "0 \<le> x \<Longrightarrow> js_rem x 12 + x div 12 * 12 = x"
  by (simp add: js_rem_nonneg)

lemma intervals_root: "\<exists>rest. CHORD_INTERVALS t = 0 # rest"
  by (cases t) simp_all

lemma scale_nonneg: "1 \<le> d \<Longrightarrow> d \<le> 7 \<Longrightarrow> 0 \<le> MAJOR_SCALE ! nat (d - 1)"
proof -
  assume "1 \<le> d" "d \<le> 7"
  then have "d = 1 \<or> d = 2 \<or> d = 3 \<or> d = 4 \<or> d = 5 \<or> d = 6 \<or> d = 7" by arith
  then show ?thesis by (auto simp: MAJOR_SCALE_def)
qed

text \<open>The first pitch of a chord in root position is the root of its scale degree.\<close>

lemma midiNotes_root:
  assumes "1 \<le> d" "d \<le> 7"
  shows "\<exists>rest. midiNotes key d chordType octave
           = ((octave + 1) * 12 + (getNoteIndex key + MAJOR_SCALE ! nat (d - 1)) mod 12) # rest"
proof -
  define r where "r = js_rem (getNoteIndex key + MAJOR_SCALE ! nat (d - 1)) 12"
  have nn: "0 \<le> getNoteIndex key + MAJOR_SCALE ! nat (d - 1)"
    using getNoteIndex_range[of key] scale_nonneg[OF assms] by simp
  have r: "r = (getNoteIndex key + MAJOR_SCALE ! nat (d - 1)) mod 12"
    unfolding r_def by (rule js_rem_nonneg[OF nn])
  then have r0: "0 \<le> r" "r < 12" by simp_all
  have first: "(octave + 1) * 12 + js_rem (r + 0) 12 + (r + 0) div 12 * 12 = (octave + 1) * 12 + r"
    using pitch_of_semitones[of r] r0 by simp
  define intervals where
    "intervals = (case (case chordType of Some t \<Rightarrow> Some t | None \<Rightarrow> map_of NASHVILLE_CHORDS d) of
                    Some t \<Rightarrow> CHORD_INTERVALS t | None \<Rightarrow> CHORD_INTERVALS Major)"
  have "\<exists>rest. intervals = 0 # rest"
    unfolding intervals_def using intervals_root by (auto split: option.splits)
  then obtain rest where rest: "intervals = 0 # rest" by blast
  have "midiNotes key d chordType octave
          = map (\<lambda>interval. (octave + 1) * 12 + js_rem (r + interval) 12 + (r + interval) div 12 * 12)
              intervals"
    by (simp add: midiNotes_def Let_def r_def intervals_def)
  then show ?thesis
    unfolding rest using first r by simp
qed

lemma mod12_shift:
  fixes x :: int
  shows "0 < k \<Longrightarrow> k < 12 \<Longrightarrow> x mod 12 \<noteq> (x + k) mod 12"
  by presburger

lemma scale_step:
  assumes "1 \<le> d" "d \<le> 6"
  shows "\<exists>k. 0 < k \<and> k < 12 \<and> MAJOR_SCALE ! nat (d + 1 - 1) = MAJOR_SCALE ! nat (d - 1) + k"
proof -
  from assms have "d = 1 \<or> d = 2 \<or> d = 3 \<or> d = 4 \<or> d = 5 \<or> d = 6" by arith
  then show ?thesis
    by (elim disjE) (simp_all add: MAJOR_SCALE_def)
qed

lemma adjacent_degrees_differ:
  assumes "1 \<le> d" "d \<le> 6"
  shows "generateChord key d chordType 0 octave \<noteq> generateChord key (d + 1) chordType 0 octave"
proof -
  from assms have d7: "d \<le> 7" and d1: "1 \<le> d + 1" "d + 1 \<le> 7" by simp_all
  from midiNotes_root[OF assms(1) d7, of key chordType octave] obtain rest where
    a: "midiNotes key d chordType octave
          = ((octave + 1) * 12 + (getNoteIndex key + MAJOR_SCALE ! nat (d - 1)) mod 12) # rest"
    by blast
  from midiNotes_root[OF d1, of key chordType octave] obtain rest' where
    b: "midiNotes key (d + 1) chordType octave
          = ((octave + 1) * 12 + (getNoteIndex key + MAJOR_SCALE ! nat (d + 1 - 1)) mod 12) # rest'"
    by blast
  from scale_step[OF assms] obtain k where
    k: "0 < k" "k < 12" "MAJOR_SCALE ! nat (d + 1 - 1) = MAJOR_SCALE ! nat (d - 1) + k"
    by blast
  have roots: "(getNoteIndex key + MAJOR_SCALE ! nat (d - 1)) mod 12
                  \<noteq> (getNoteIndex key + MAJOR_SCALE ! nat (d + 1 - 1)) mod 12"
  proof -
    have "(getNoteIndex key + MAJOR_SCALE ! nat (d - 1)) mod 12
            \<noteq> (getNoteIndex key + MAJOR_SCALE ! nat (d - 1) + k) mod 12"
      by (rule mod12_shift[OF k(1,2)])
    then show ?thesis by (simp only: k(3) add.assoc simp_thms)
  qed
  have ga: "generateChord key d chordType 0 octave = Inr (midiNotes key d chordType octave)"
    using assms(1) d7 by (simp add: generateChord_def)
  have gb: "generateChord key (d + 1) chordType 0 octave = Inr (midiNotes key (d + 1) chordType octave)"
    using d1 by (simp add: generateChord_def)
  show ?thesis
    unfolding ga gb a b using roots by simp
qed

lemma untranslated_differs:
  assumes "0 \<le> d" "d \<le> 6"
  shows "generateChord key d chordType 0 octave \<noteq> generateChord key (d + 1) chordType 0 octave"
proof (cases "d = 0")
  case True
  then show ?thesis by (simp add: generateChord_def)
next
  case False
  with assms have "1 \<le> d" by simp
  from adjacent_degrees_differ[OF this assms(2)] show ?thesis .
qed

lemma tonic_chord:
  "generateChord key (0 + 1) None 0 octave
     = Inr [(octave + 1) * 12 + getNoteIndex key,
            (octave + 1) * 12 + getNoteIndex key + 4,
            (octave + 1) * 12 + getNoteIndex key + 7]"
  by (cases key)
     (simp_all add: generateChord_def midiNotes_def getNoteIndex_def NOTES_def MAJOR_SCALE_def
        NASHVILLE_CHORDS_def js_rem_def)

lemma leading_tone_chord:
  "generateChord key (6 + 1) None 0 octave
     = Inr [(octave + 1) * 12 + (getNoteIndex key + 11) mod 12,
            (octave + 1) * 12 + (getNoteIndex key + 11) mod 12 + 3,
            (octave + 1) * 12 + (getNoteIndex key + 11) mod 12 + 6]"
  by (cases key)
     (simp_all add: generateChord_def midiNotes_def getNoteIndex_def NOTES_def MAJOR_SCALE_def
        NASHVILLE_CHORDS_def js_rem_def)


lemma finalScores_single:
  "finalScores [h] rnd =
     [(0, creativityBoost (rnd 0) 0 (scoreDegree h None 0)),
      (1, creativityBoost (rnd 1) 1 (scoreDegree h None 1)),
      (2, creativityBoost (rnd 2) 2 (scoreDegree h None 2)),
      (3, creativityBoost (rnd 3) 3 (scoreDegree h None 3)),
      (4, creativityBoost (rnd 4) 4 (scoreDegree h None 4)),
      (5, creativityBoost (rnd 5) 5 (scoreDegree h None 5)),
      (6, creativityBoost (rnd 6) 6 (scoreDegree h None 6))]"
  by (simp add: finalScores_explicit Let_def)

lemma tonic_first_after_dominant:
  "map ChordSuggestion.degree
     (suggestNextChords [\<lparr>ChordHistory.degree = 4, timestamp = 0\<rparr>] shuffle (\<lambda>_. 1 / 2))
     = [0, 5, 2, 1]"
  by (simp add: suggestNextChords_def rankedSuggestions_def finalScores_single Let_def
        creativityBoost_def scoreDegree_def lookupOr_def COMMON_PROGRESSIONS_def
        getCircleOfFifthsBonus_def getFunctionalHarmonyBonus_def js_rem_def
        HARMONIC_FUNCTION_tonic_def HARMONIC_FUNCTION_subdominant_def HARMONIC_FUNCTION_dominant_def
        sortByProbability_def)

lemma leading_tone_first:
  "map ChordSuggestion.degree
     (suggestNextChords [\<lparr>ChordHistory.degree = 5, timestamp = 0\<rparr>] shuffle
        (\<lambda>j. if j = 6 then 99 / 100 else 0))
     = [6, 1, 2, 3]"
  by (simp add: suggestNextChords_def rankedSuggestions_def finalScores_single Let_def
        creativityBoost_def scoreDegree_def lookupOr_def COMMON_PROGRESSIONS_def
        getCircleOfFifthsBonus_def getFunctionalHarmonyBonus_def js_rem_def
        HARMONIC_FUNCTION_tonic_def HARMONIC_FUNCTION_subdominant_def HARMONIC_FUNCTION_dominant_def
        sortByProbability_def)

lemma select_seventh:
  "selectChordForTension (\<lambda>x. x) (Num (1 / 2)) (Some 1) None 0 (\<lambda>_. 999 / 1000) = 7"
  by (simp add: selectChordForTension_def selectionWeights_def baseWeights_def tensionAdjust_def
        weightedSelect_def totalWeight_def MARKOV_1ST_ORDER_def obj_literal_def chordTensionOf_def
        CHORD_TENSION_MAP_def fl_add_def fl_sub_def fl_mul_def js_sub_def Let_def)

lemma select_tonic:
  "selectChordForTension (\<lambda>x. x) (Num (1 / 2)) (Some 1) None 0 (\<lambda>_. 0) = 1"
  by (simp add: selectChordForTension_def selectionWeights_def baseWeights_def tensionAdjust_def
        weightedSelect_def totalWeight_def MARKOV_1ST_ORDER_def obj_literal_def chordTensionOf_def
        CHORD_TENSION_MAP_def fl_add_def fl_sub_def fl_mul_def js_sub_def Let_def)

lemma first_order_degrees: "map fst (baseWeights fl (Some 1) None) = [1, 2, 3, 4, 5, 6, 7]"
  by (simp add: baseWeights_def MARKOV_1ST_ORDER_def obj_literal_def)

lemma starter_labels:
  "map (\<lambda>s. (ChordSuggestion.degree s, reason s)) startOptions
     = [(0, ''Tonic (I) - Classic start''), (4, ''Dominant (V) - Bold start''),
        (3, ''Subdominant (IV) - Warm start''), (5, ''vi - Melancholic start''),
        (1, ''ii - Jazz influence'')]"
  by (simp add: startOptions_def)

lemma starter_degrees_inj: "inj_on ChordSuggestion.degree (set startOptions)"
  by (simp add: startOptions_def)

text \<open>
  Claim C10. The suggestion engine counts degrees from 0. A non-empty history ranks each
  of the degrees 0 to 6 exactly once and returns four of them, an empty history returns
  three of the starter degrees; degree 0 and degree 6 are both returned for suitable
  histories. Degree 0 is the tonic I and degree 6 is the diminished vii: the starter list labels
  degree 0 as the tonic, and in the chord model, which counts from 1, degree 0 + 1 is the
  major triad on the root of the key and degree 6 + 1 the diminished triad eleven
  semitones above it. The translation is needed: the chord model accepts every suggested
  degree plus one, and for every suggested degree the untranslated degree is rejected
  (degree 0) or gives a chord on another root. The batch generator selects degrees
  between 1 and 7, over the keys 1 to 7 of its tables, 1 and 7 included.
\<close>

theorem suggestion_degrees_zero_based:
  assumes "history = [] \<longrightarrow> mset (shuffle startOptions) = mset startOptions"
  shows "length (suggestNextChords history shuffle rnd) = (if history = [] then 3 else 4)
       \<and> distinct (map ChordSuggestion.degree (suggestNextChords history shuffle rnd))
       \<and> (\<forall>s\<in>set (suggestNextChords history shuffle rnd).
              0 \<le> ChordSuggestion.degree s \<and> ChordSuggestion.degree s \<le> 6
            \<and> (\<exists>pitches. generateChord key (ChordSuggestion.degree s + 1) chordType inversion octave
                            = Inr pitches)
            \<and> generateChord key (ChordSuggestion.degree s) chordType 0 octave
                 \<noteq> generateChord key (ChordSuggestion.degree s + 1) chordType 0 octave)
       \<and> (history \<noteq> [] \<longrightarrow>
             mset (map ChordSuggestion.degree (rankedSuggestions history rnd))
               = mset [0, 1, 2, 3, 4, 5, 6])
       \<and> map ChordSuggestion.degree
            (suggestNextChords [\<lparr>ChordHistory.degree = 4, timestamp = 0\<rparr>] shuffle (\<lambda>_. 1 / 2))
            = [0, 5, 2, 1]
       \<and> map ChordSuggestion.degree
            (suggestNextChords [\<lparr>ChordHistory.degree = 5, timestamp = 0\<rparr>] shuffle
               (\<lambda>j. if j = 6 then 99 / 100 else 0))
            = [6, 1, 2, 3]
       \<and> map (\<lambda>s. (ChordSuggestion.degree s, reason s)) startOptions
            = [(0, ''Tonic (I) - Classic start''), (4, ''Dominant (V) - Bold start''),
               (3, ''Subdominant (IV) - Warm start''), (5, ''vi - Melancholic start''),
               (1, ''ii - Jazz influence'')]
       \<and> generateChord key (0 + 1) None 0 octave
            = Inr [(octave + 1) * 12 + getNoteIndex key,
                   (octave + 1) * 12 + getNoteIndex key + 4,
                   (octave + 1) * 12 + getNoteIndex key + 7]
       \<and> generateChord key (6 + 1) None 0 octave
            = Inr [(octave + 1) * 12 + (getNoteIndex key + 11) mod 12,
                   (octave + 1) * 12 + (getNoteIndex key + 11) mod 12 + 3,
                   (octave + 1) * 12 + (getNoteIndex key + 11) mod 12 + 6]
       \<and> generateChord key 0 chordType inversion octave
            = Inl (Error ''Scale degree must be between 1 and 7'')
       \<and> 1 \<le> selectChordForTension fl targetTension previousChord secondPreviousChord creativity rnd'
       \<and> selectChordForTension fl targetTension previousChord secondPreviousChord creativity rnd' \<le> 7
       \<and> map fst (baseWeights fl (Some 1) None) = [1, 2, 3, 4, 5, 6, 7]
       \<and> selectChordForTension (\<lambda>x. x) (Num (1 / 2)) (Some 1) None 0 (\<lambda>_. 999 / 1000) = 7
       \<and> selectChordForTension (\<lambda>x. x) (Num (1 / 2)) (Some 1) None 0 (\<lambda>_. 0) = 1"
proof -
  have len: "length (suggestNextChords history shuffle rnd) = (if history = [] then 3 else 4)"
  proof (cases "history = []")
    case True
    with assms have "mset (shuffle startOptions) = mset startOptions" by simp
    from shuffled_facts(1)[OF this] True show ?thesis
      by (simp add: suggestNextChords_def sortByProbability_def)
  next
    case False
    then show ?thesis by (simp add: suggestNextChords_def ranked_length)
  qed
  have sub: "set (suggestNextChords history shuffle rnd) \<subseteq> set startOptions
             \<and> distinct (suggestNextChords history shuffle rnd)" if "history = []"
  proof -
    from that assms have "mset (shuffle startOptions) = mset startOptions" by simp
    note f = shuffled_facts[OF this]
    have eq: "suggestNextChords history shuffle rnd = sortByProbability (take 3 (shuffle startOptions))"
      using that by (simp add: suggestNextChords_def)
    show ?thesis
      using set_take_subset[of 3 "shuffle startOptions"] f(2,3)
      by (simp add: eq sortByProbability_def)
  qed
  have dist: "distinct (map ChordSuggestion.degree (suggestNextChords history shuffle rnd))"
  proof (cases "history = []")
    case True
    from sub[OF True] starter_degrees_inj show ?thesis
      by (simp add: distinct_map inj_on_subset)
  next
    case False
    then have "map ChordSuggestion.degree (suggestNextChords history shuffle rnd)
                 = take 4 (map ChordSuggestion.degree (rankedSuggestions history rnd))"
      by (simp add: suggestNextChords_def take_map)
    with ranked_distinct[of history rnd] show ?thesis by simp
  qed
  have range: "0 \<le> ChordSuggestion.degree s \<and> ChordSuggestion.degree s \<le> 6"
    if "s \<in> set (suggestNextChords history shuffle rnd)" for s
  proof (cases "history = []")
    case True
    with sub that have "s \<in> set startOptions" by blast
    then show ?thesis by (auto simp: startOptions_def)
  next
    case False
    with that have "s \<in> set (rankedSuggestions history rnd)"
      by (auto simp: suggestNextChords_def dest: in_set_takeD)
    then have "ChordSuggestion.degree s \<in># mset (map ChordSuggestion.degree (rankedSuggestions history rnd))"
      by simp
    then show ?thesis unfolding ranked_degrees by auto
  qed
  have each: "0 \<le> ChordSuggestion.degree s \<and> ChordSuggestion.degree s \<le> 6
            \<and> (\<exists>pitches. generateChord key (ChordSuggestion.degree s + 1) chordType inversion octave
                            = Inr pitches)
            \<and> generateChord key (ChordSuggestion.degree s) chordType 0 octave
                 \<noteq> generateChord key (ChordSuggestion.degree s + 1) chordType 0 octave"
    if "s \<in> set (suggestNextChords history shuffle rnd)" for s
  proof -
    note r = range[OF that]
    from r have "\<exists>pitches. generateChord key (ChordSuggestion.degree s + 1) chordType inversion octave
                            = Inr pitches"
      by (intro generateChord_accepts) simp_all
    moreover from r have "generateChord key (ChordSuggestion.degree s) chordType 0 octave
                 \<noteq> generateChord key (ChordSuggestion.degree s + 1) chordType 0 octave"
      by (intro untranslated_differs) simp_all
    ultimately show ?thesis using r by blast
  qed
  have full: "history \<noteq> [] \<longrightarrow>
             mset (map ChordSuggestion.degree (rankedSuggestions history rnd))
               = mset [0, 1, 2, 3, 4, 5, 6]"
    using ranked_degrees by blast
  have reject: "generateChord key 0 chordType inversion octave
                  = Inl (Error ''Scale degree must be between 1 and 7'')"
    by (simp add: generateChord_def)
  note batch = select_range[of fl targetTension previousChord secondPreviousChord creativity rnd']
  from len dist each full tonic_first_after_dominant[of shuffle] leading_tone_first[of shuffle]
    starter_labels tonic_chord[of key octave] leading_tone_chord[of key octave] reject batch
    first_order_degrees[of fl] select_seventh select_tonic
  show ?thesis by blast
qed

theorem suggestion_degrees_zero_based_witness:
  "mset (rev startOptions) = mset startOptions
   \<and> length (suggestNextChords [] rev (\<lambda>_. 1 / 2)) = 3
   \<and> length (suggestNextChords [\<lparr>ChordHistory.degree = 4, timestamp = 0\<rparr>] rev (\<lambda>_. 1 / 2)) = 4
   \<and> map ChordSuggestion.degree
        (suggestNextChords [\<lparr>ChordHistory.degree = 4, timestamp = 0\<rparr>] rev (\<lambda>_. 1 / 2))
        = [0, 5, 2, 1]
   \<and> list_all (\<lambda>s. 0 \<le> ChordSuggestion.degree s \<and> ChordSuggestion.degree s \<le> 6
                  \<and> (\<exists>pitches. generateChord C (ChordSuggestion.degree s + 1) None 0 3 = Inr pitches)
                  \<and> generateChord C (ChordSuggestion.degree s) None 0 3
                       \<noteq> generateChord C (ChordSuggestion.degree s + 1) None 0 3)
        (suggestNextChords [\<lparr>ChordHistory.degree = 4, timestamp = 0\<rparr>] rev (\<lambda>_. 1 / 2))
   \<and> list_all (\<lambda>s. 0 \<le> ChordSuggestion.degree s \<and> ChordSuggestion.degree s \<le> 6)
        (suggestNextChords [] rev (\<lambda>_. 1 / 2))
   \<and> mset (map ChordSuggestion.degree
        (rankedSuggestions [\<lparr>ChordHistory.degree = 4, timestamp = 0\<rparr>] (\<lambda>_. 1 / 2)))
        = mset [0, 1, 2, 3, 4, 5, 6]
   \<and> generateChord C 0 None 0 3 = Inl (Error ''Scale degree must be between 1 and 7'')
   \<and> generateChord C (0 + 1) None 0 3 = Inr [48, 52, 55]
   \<and> generateChord C (6 + 1) None 0 3 = Inr [59, 62, 65]"
proof -
  have idx: "getNoteIndex C = 0" by (simp add: getNoteIndex_def NOTES_def)
  show ?thesis
    using suggestion_degrees_zero_based[where history = "[]" and shuffle = rev and rnd = "\<lambda>_. 1 / 2"
        and key = C and chordType = None and inversion = 0 and octave = 3 and fl = "\<lambda>x. x"
        and targetTension = "Num (1 / 2)" and previousChord = "Some 5"
        and secondPreviousChord = "Some 1" and creativity = 0 and rnd' = "\<lambda>_. 1 / 2"]
      suggestion_degrees_zero_based[where history = "[\<lparr>ChordHistory.degree = 4, timestamp = 0\<rparr>]"
        and shuffle = rev and rnd = "\<lambda>_. 1 / 2"
        and key = C and chordType = None and inversion = 0 and octave = 3 and fl = "\<lambda>x. x"
        and targetTension = "Num (1 / 2)" and previousChord = "Some 5"
        and secondPreviousChord = "Some 1" and creativity = 0 and rnd' = "\<lambda>_. 1 / 2"]
    by (simp add: list_all_iff idx)
qed



end
